theory Spec2Isabelle
  imports Main "HOL-Library.Word"
begin

unbundle bit_operations_syntax

section \<open>A baseline JPEG decoder (decoder.cpp)\<close>

text \<open>
  The C++ types \<open>byte\<close> (unsigned char) and \<open>uint\<close> (unsigned int) are words of 8
  and 32 bits. A C++ \<open>int\<close> is modelled by \<open>int\<close>. A left shift of a 32-bit \<open>int\<close> by
  less than 32 keeps the low 32 bits of the result, as C++20 defines it. Where the
  source could shift by 32 or more, or add or subtract out of the range of the 32-bit
  \<open>int\<close>, which C++ leaves undefined, the model returns the outcome \<open>Undefined\<close> and
  says no more about the code. \<open>Failed\<close> is the return of \<open>false\<close> or of \<open>nullptr\<close>.
\<close>

type_synonym byte = "8 word"
type_synonym uint = "32 word"

datatype 'a outcome = Undefined | Failed | Ok 'a

definition int32 :: "int \<Rightarrow> bool" where
  "int32 x = (- (2 ^ 31) \<le> x \<and> x < 2 ^ 31)"

subsection \<open>Sign extension of a coefficient (decodeMCUComponent, lines 670-672 and 716-718)\<close>

text \<open>
  DC path: \<open>if (length != 0 && coeff < (1 << (length - 1))) coeff -= (1 << length) - 1;\<close>
\<close>

definition extendDC :: "nat \<Rightarrow> int \<Rightarrow> int" where
  "extendDC len coeff =
     (if len \<noteq> 0 \<and> coeff < push_bit (len - 1) 1 then coeff - (push_bit len 1 - 1)
      else coeff)"

text \<open>
  AC path, inside \<open>if (coeffLength != 0)\<close>:
  \<open>if (coeff < (1 << (coeffLength - 1))) coeff -= (1 << coeffLength) - 1;\<close>
\<close>

definition extendAC :: "nat \<Rightarrow> int \<Rightarrow> int" where
  "extendAC coeffLength coeff =
     (if coeff < push_bit (coeffLength - 1) 1 then coeff - (push_bit coeffLength 1 - 1)
      else coeff)"

text \<open>
  Modelled from the spec: the encoder of a coefficient is not part of decoder.cpp. The
  spec (section 8, property 4) speaks of "encoding it back" to the pair \<open>(L, V)\<close> that
  section 4.4 decodes: \<open>L\<close> is the size of the value, the number of bits of its
  magnitude, and \<open>V\<close> is the value itself when it is not negative and the value plus
  \<open>2^L - 1\<close> otherwise, the inverse of the subtraction of section 4.4.
\<close>

fun bitSize :: "nat \<Rightarrow> nat" where
  "bitSize n = (if n = 0 then 0 else Suc (bitSize (n div 2)))"

definition encode :: "int \<Rightarrow> nat \<times> int" where
  "encode v = (let L = bitSize (nat \<bar>v\<bar>) in (L, if v < 0 then v + (2 ^ L - 1) else v))"

subsection \<open>The zigzag table\<close>

text \<open>
  Modelled from the spec: \<open>zigZagMap\<close> is declared in jpg.h, which is not among the
  sources. The spec (section 3) describes it as the fixed permutation of \<open>[0, 64)\<close>
  that sends the k-th coefficient in zigzag order to its row-major place in the 8x8
  block; this is the table of the JPEG standard.
\<close>

definition zigZagMap :: "nat list" where
  "zigZagMap =
     [0, 1, 8, 16, 9, 2, 3, 10,
      17, 24, 32, 25, 18, 11, 4, 5,
      12, 19, 26, 33, 40, 48, 41, 34,
      27, 20, 13, 6, 7, 14, 21, 28,
      35, 42, 49, 56, 57, 50, 43, 36,
      29, 22, 15, 23, 30, 37, 44, 51,
      58, 59, 52, 45, 38, 31, 39, 46,
      53, 60, 61, 54, 47, 55, 62, 63]"

subsection \<open>The header and the MCU\<close>

text \<open>
  Modelled from the spec: the structs \<open>QuantizationTable\<close>, \<open>HuffmanTable\<close>,
  \<open>ColorComponent\<close>, \<open>Header\<close> and \<open>MCU\<close> are declared in jpg.h, which is not among
  the sources. Their fields and the sizes of their arrays are those of section 3 of the
  spec, under the names the code uses; the flag \<open>set\<close> of the two kinds of table is
  \<open>set_flag\<close> and \<open>hset\<close> here. The arrays \<open>r\<close>, \<open>g\<close> and \<open>b\<close> of an MCU are other
  names of \<open>y\<close>, \<open>cb\<close> and \<open>cr\<close>.
\<close>

record QuantizationTable =
  table :: "16 word list"
  set_flag :: bool

record HuffmanTable =
  offsets :: "uint list"
  symbols :: "byte list"
  hset :: bool

record ColorComponent =
  horizontalSamplingFactor :: byte
  verticalSamplingFactor :: byte
  quantizationTableID :: byte
  huffmanDCTableID :: byte
  huffmanACTableID :: byte
  used :: bool

record Header =
  quantizationTables :: "QuantizationTable list"
  huffmanDCTables :: "HuffmanTable list"
  huffmanACTables :: "HuffmanTable list"
  frameType :: byte
  height :: uint
  width :: uint
  numComponents :: byte
  zeroBased :: bool
  startOfSelection :: byte
  endOfSelection :: byte
  successiveApproximationHigh :: byte
  successiveApproximationLow :: byte
  restartInterval :: uint
  colorComponents :: "ColorComponent list"
  huffmanData :: "byte list"
  valid :: bool

record MCU =
  y :: "int list"
  cb :: "int list"
  cr :: "int list"

subsection \<open>The input file\<close>

text \<open>
  \<open>std::ifstream\<close>, as the parser uses it: the bytes not yet read, and the state that
  \<open>!inFile\<close> tests. \<open>get()\<close> returns the next byte as an \<open>int\<close>; when no byte is left
  it returns \<open>-1\<close> (EOF) and the stream fails, for this and every later call.
\<close>

record istream =
  remaining :: "byte list"
  failed :: bool

definition get :: "istream \<Rightarrow> int \<times> istream" where
  "get s =
     (if failed s then (- 1, s)
      else (case remaining s of
              [] \<Rightarrow> (- 1, s\<lparr>failed := True\<rparr>)
            | c # cs \<Rightarrow> (uint c, s\<lparr>remaining := cs\<rparr>)))"

text \<open>\<open>byte x = inFile.get();\<close> keeps the low 8 bits, so EOF is read as 0xFF.\<close>

definition getByte :: "istream \<Rightarrow> byte \<times> istream" where
  "getByte s = (case get s of (v, s1) \<Rightarrow> (word_of_int v, s1))"

text \<open>
  \<open>(inFile.get() << 8) + inFile.get()\<close>, an \<open>int\<close>; the left operand is read first.
\<close>

definition get16 :: "istream \<Rightarrow> int \<times> istream" where
  "get16 s = (case get s of (hi, s1) \<Rightarrow> (case get s1 of (lo, s2) \<Rightarrow> (push_bit 8 hi + lo, s2)))"

text \<open>\<open>n\<close> calls of \<open>get()\<close> whose results are dropped.\<close>

definition skip :: "nat \<Rightarrow> istream \<Rightarrow> istream" where
  "skip n s =
     (if failed s then s
      else if n \<le> length (remaining s) then s\<lparr>remaining := drop n (remaining s)\<rparr>
      else s\<lparr>remaining := [], failed := True\<rparr>)"

subsection \<open>The markers\<close>

text \<open>
  Modelled from the spec: the marker constants are declared in jpg.h, which is not among
  the sources. Section 4.1 of the spec gives their values; DNL, DHP, EXP and SOF15, which
  it names without a value, are 0xDC, 0xDE, 0xDF and 0xCF in the JPEG standard.
\<close>

definition TEM :: byte where "TEM = 0x01"
definition SOF0 :: byte where "SOF0 = 0xC0"
definition DHT :: byte where "DHT = 0xC4"
definition DAC :: byte where "DAC = 0xCC"
definition SOF15 :: byte where "SOF15 = 0xCF"
definition RST0 :: byte where "RST0 = 0xD0"
definition RST7 :: byte where "RST7 = 0xD7"
definition SOI :: byte where "SOI = 0xD8"
definition EOI :: byte where "EOI = 0xD9"
definition SOS :: byte where "SOS = 0xDA"
definition DQT :: byte where "DQT = 0xDB"
definition DNL :: byte where "DNL = 0xDC"
definition DRI :: byte where "DRI = 0xDD"
definition DHP :: byte where "DHP = 0xDE"
definition EXP :: byte where "EXP = 0xDF"
definition APP0 :: byte where "APP0 = 0xE0"
definition APP15 :: byte where "APP15 = 0xEF"
definition JPG0 :: byte where "JPG0 = 0xF0"
definition JPG13 :: byte where "JPG13 = 0xFD"
definition COM :: byte where "COM = 0xFE"

lemmas marker_defs =
  TEM_def SOF0_def DHT_def DAC_def SOF15_def RST0_def RST7_def SOI_def EOI_def SOS_def
  DQT_def DNL_def DRI_def DHP_def EXP_def APP0_def APP15_def JPG0_def JPG13_def COM_def

text \<open>
  Modelled from the spec: the header as \<open>new Header\<close> leaves it. The struct is declared
  in jpg.h; section 3 of the spec says it is constructed empty, and the parser relies on
  \<open>numComponents = 0\<close>, on \<open>valid = true\<close> and on flags that are not set. The sampling
  factors and the spectral selection start at the values section 3 gives for a baseline
  file.
\<close>

definition emptyHeader :: Header where
  "emptyHeader =
     \<lparr>quantizationTables = replicate 4 \<lparr>table = replicate 64 0, set_flag = False\<rparr>,
      huffmanDCTables =
        replicate 4 \<lparr>offsets = replicate 17 0, symbols = replicate 162 0, hset = False\<rparr>,
      huffmanACTables =
        replicate 4 \<lparr>offsets = replicate 17 0, symbols = replicate 162 0, hset = False\<rparr>,
      frameType = 0, height = 0, width = 0, numComponents = 0, zeroBased = False,
      startOfSelection = 0, endOfSelection = 63,
      successiveApproximationHigh = 0, successiveApproximationLow = 0,
      restartInterval = 0,
      colorComponents =
        replicate 3 \<lparr>horizontalSamplingFactor = 1, verticalSamplingFactor = 1,
                     quantizationTableID = 0, huffmanDCTableID = 0, huffmanACTableID = 0,
                     used = False\<rparr>,
      huffmanData = [], valid = True\<rparr>"

definition invalid :: "Header \<Rightarrow> Header" where
  "invalid header = header\<lparr>valid := False\<rparr>"

text \<open>
  An access to an array of the header with an index outside the array is the outcome
  \<open>OutOfBounds\<close>, with the index.
\<close>

datatype 'a access = OutOfBounds int | Within 'a

subsection \<open>readStartOfFrame (lines 9-85)\<close>

text \<open>
  The loop over the components of the frame; the first argument counts the passes left.
  The flag of the result says that the function has returned from inside the loop.
\<close>

fun frameComponents :: "nat \<Rightarrow> istream \<Rightarrow> Header \<Rightarrow> bool \<times> istream \<times> Header" where
  "frameComponents 0 s header = (False, s, header)"
| "frameComponents (Suc n) s header =
     (case getByte s of
        (componentID0, s1) \<Rightarrow>
          let header1 = (if componentID0 = 0 then header\<lparr>zeroBased := True\<rparr> else header);
              componentID = (if zeroBased header1 then componentID0 + 1 else componentID0)
          in if componentID = 4 \<or> componentID = 5 then (True, s1, invalid header1)
             else if componentID = 0 \<or> 3 < componentID then (True, s1, invalid header1)
             else
               let idx = unat componentID - 1;
                   component = colorComponents header1 ! idx
               in if used component then (True, s1, invalid header1)
                  else (case getByte s1 of
                          (samplingFactor, s2) \<Rightarrow>
                            (case getByte s2 of
                               (tableID, s3) \<Rightarrow>
                                 let component' = component
                                       \<lparr>used := True,
                                        horizontalSamplingFactor := drop_bit 4 samplingFactor,
                                        verticalSamplingFactor := samplingFactor AND 0x0F,
                                        quantizationTableID := tableID\<rparr>;
                                     header2 = header1
                                       \<lparr>colorComponents :=
                                          (colorComponents header1)[idx := component']\<rparr>
                                 in if 3 < tableID then (True, s3, invalid header2)
                                    else frameComponents n s3 header2)))"

definition readStartOfFrame :: "istream \<Rightarrow> Header \<Rightarrow> istream \<times> Header" where
  "readStartOfFrame s header =
     (if numComponents header \<noteq> 0 then (s, invalid header)
      else (case get16 s of
        (len, s1) \<Rightarrow>
          (case getByte s1 of
             (precision, s2) \<Rightarrow>
               if precision \<noteq> 8 then (s2, invalid header)
               else (case get16 s2 of
                 (h, s3) \<Rightarrow>
                   (case get16 s3 of
                      (w, s4) \<Rightarrow>
                        let header1 = header\<lparr>height := word_of_int h, width := word_of_int w\<rparr>
                        in if height header1 = 0 \<or> width header1 = 0 then (s4, invalid header1)
                           else (case getByte s4 of
                             (n, s5) \<Rightarrow>
                               let header2 = header1\<lparr>numComponents := n\<rparr>
                               in if n = 4 then (s5, invalid header2)
                                  else if n = 0 then (s5, invalid header2)
                                  else (case frameComponents (unat n) s5 header2 of
                                    (returned, s6, header3) \<Rightarrow>
                                      if returned then (s6, header3)
                                      else if (word_of_int len :: uint) - 8 - 3 * ucast n \<noteq> 0
                                      then (s6, invalid header3)
                                      else (s6, header3))))))))"

subsection \<open>readQuantizationTable (lines 88-122)\<close>

fun readEntries16 :: "nat \<Rightarrow> istream \<Rightarrow> 16 word list \<times> istream" where
  "readEntries16 0 s = ([], s)"
| "readEntries16 (Suc n) s =
     (case get16 s of
        (v, s1) \<Rightarrow> (case readEntries16 n s1 of (vs, s2) \<Rightarrow> (word_of_int v # vs, s2)))"

fun readEntries8 :: "nat \<Rightarrow> istream \<Rightarrow> 16 word list \<times> istream" where
  "readEntries8 0 s = ([], s)"
| "readEntries8 (Suc n) s =
     (case get s of
        (v, s1) \<Rightarrow> (case readEntries8 n s1 of (vs, s2) \<Rightarrow> (word_of_int v # vs, s2)))"

text \<open>
  The \<open>while (length > 0)\<close> loop; the result holds the flag of a return from inside the
  loop and the \<open>length\<close> that is left.
\<close>

function quantizationLoop :: "int \<Rightarrow> istream \<Rightarrow> Header \<Rightarrow> bool \<times> int \<times> istream \<times> Header" where
  "quantizationLoop len s header =
     (if 0 < len then
        (case getByte s of
           (tableInfo, s1) \<Rightarrow>
             let tableID = tableInfo AND 0x0F in
             if 3 < tableID then (True, len - 1, s1, invalid header)
             else if drop_bit 4 tableInfo \<noteq> 0 then
               (case readEntries16 64 s1 of
                  (vs, s2) \<Rightarrow>
                    quantizationLoop (len - 1 - 128) s2
                      (header\<lparr>quantizationTables :=
                         (quantizationTables header)
                           [unat tableID := \<lparr>table = vs, set_flag = True\<rparr>]\<rparr>))
             else
               (case readEntries8 64 s1 of
                  (vs, s2) \<Rightarrow>
                    quantizationLoop (len - 1 - 64) s2
                      (header\<lparr>quantizationTables :=
                         (quantizationTables header)
                           [unat tableID := \<lparr>table = vs, set_flag = True\<rparr>]\<rparr>)))
      else (False, len, s, header))"
  by pat_completeness auto
termination
  by (relation "measure (\<lambda>(len, s, header). nat len)") auto

declare quantizationLoop.simps [simp del]

definition readQuantizationTable :: "istream \<Rightarrow> Header \<Rightarrow> istream \<times> Header" where
  "readQuantizationTable s header =
     (case get16 s of
        (len, s1) \<Rightarrow>
          (case quantizationLoop (len - 2) s1 header of
             (returned, len', s2, header1) \<Rightarrow>
               if returned then (s2, header1)
               else if len' \<noteq> 0 then (s2, invalid header1)
               else (s2, header1)))"

subsection \<open>readHuffmanTable (lines 125-171)\<close>

text \<open>
  \<open>allSymbols += inFile.get(); hTable->offsets[i] = allSymbols;\<close> for the passes left:
  the offsets written, the final \<open>allSymbols\<close> and the stream.
\<close>

fun readOffsets :: "nat \<Rightarrow> uint \<Rightarrow> istream \<Rightarrow> uint list \<times> uint \<times> istream" where
  "readOffsets 0 allSymbols s = ([], allSymbols, s)"
| "readOffsets (Suc n) allSymbols s =
     (case get s of
        (v, s1) \<Rightarrow>
          (case readOffsets n (allSymbols + word_of_int v) s1 of
             (rest, allSymbols1, s2) \<Rightarrow> ((allSymbols + word_of_int v) # rest, allSymbols1, s2)))"

fun readSymbols :: "nat \<Rightarrow> istream \<Rightarrow> byte list \<times> istream" where
  "readSymbols 0 s = ([], s)"
| "readSymbols (Suc n) s =
     (case getByte s of
        (v, s1) \<Rightarrow> (case readSymbols n s1 of (vs, s2) \<Rightarrow> (v # vs, s2)))"

definition storeTable :: "bool \<Rightarrow> nat \<Rightarrow> HuffmanTable \<Rightarrow> Header \<Rightarrow> Header" where
  "storeTable ACTable tableID hTable header =
     (if ACTable
      then header\<lparr>huffmanACTables := (huffmanACTables header)[tableID := hTable]\<rparr>
      else header\<lparr>huffmanDCTables := (huffmanDCTables header)[tableID := hTable]\<rparr>)"

function huffmanLoop :: "int \<Rightarrow> istream \<Rightarrow> Header \<Rightarrow> bool \<times> int \<times> istream \<times> Header" where
  "huffmanLoop len s header =
     (if 0 < len then
        (case getByte s of
           (tableInfo, s1) \<Rightarrow>
             let tableID = tableInfo AND 0x0F;
                 ACTable = (drop_bit 4 tableInfo \<noteq> 0)
             in if 3 < tableID then (True, len, s1, invalid header)
                else
                  let hTable = (if ACTable then huffmanACTables header ! unat tableID
                                else huffmanDCTables header ! unat tableID)
                  in (case readOffsets 16 0 s1 of
                        (offs, allSymbols, s2) \<Rightarrow>
                          let hTable1 = hTable\<lparr>hset := True, offsets := 0 # offs\<rparr> in
                          if 162 < allSymbols
                          then (True, len, s2,
                                invalid (storeTable ACTable (unat tableID) hTable1 header))
                          else (case readSymbols (unat allSymbols) s2 of
                                  (syms, s3) \<Rightarrow>
                                    huffmanLoop (len - (17 + uint allSymbols)) s3
                                      (storeTable ACTable (unat tableID)
                                         (hTable1\<lparr>symbols :=
                                            syms @ drop (unat allSymbols) (symbols hTable)\<rparr>)
                                         header))))
      else (False, len, s, header))"
  by pat_completeness auto
termination
proof (relation "measure (\<lambda>(len, s, header). nat len)")
  show "wf (measure (\<lambda>(len, s, header). nat len))" by simp
next
  fix len :: int and s header x tableInfo s1 tableID ACTable hTable y offs z allSymbols s2
    hTable1 w syms s3
  assume len: "0 < len"
  have "0 \<le> uint allSymbols" by simp
  then have "len - (17 + uint allSymbols) < len" by linarith
  with len show "((len - (17 + uint allSymbols), s3,
             storeTable ACTable (unat tableID)
               (hTable1\<lparr>symbols := syms @ drop (unat allSymbols) (symbols hTable)\<rparr>) header),
            len, s, header) \<in> measure (\<lambda>(len, s, header). nat len)"
    by simp
qed

declare huffmanLoop.simps [simp del]

definition readHuffmanTable :: "istream \<Rightarrow> Header \<Rightarrow> istream \<times> Header" where
  "readHuffmanTable s header =
     (case get16 s of
        (len, s1) \<Rightarrow>
          (case huffmanLoop (len - 2) s1 header of
             (returned, len', s2, header1) \<Rightarrow>
               if returned then (s2, header1)
               else if len' \<noteq> 0 then (s2, invalid header1)
               else (s2, header1)))"

subsection \<open>readRestartInterval, readAPPN, readComment (lines 249-275)\<close>

definition readRestartInterval :: "istream \<Rightarrow> Header \<Rightarrow> istream \<times> Header" where
  "readRestartInterval s header =
     (case get16 s of
        (len, s1) \<Rightarrow>
          (case get16 s1 of
             (interval, s2) \<Rightarrow>
               let header1 = header\<lparr>restartInterval := word_of_int interval\<rparr> in
               if (word_of_int len :: uint) - 4 \<noteq> 0 then (s2, invalid header1)
               else (s2, header1)))"

text \<open>\<open>for (uint i = 0; i < length - 2; ++i) inFile.get();\<close> with a \<open>uint length\<close>.\<close>

definition readAPPN :: "istream \<Rightarrow> Header \<Rightarrow> istream \<times> Header" where
  "readAPPN s header =
     (case get16 s of (len, s1) \<Rightarrow> (skip (unat ((word_of_int len :: uint) - 2)) s1, header))"

definition readComment :: "istream \<Rightarrow> Header \<Rightarrow> istream \<times> Header" where
  "readComment s header =
     (case get16 s of (len, s1) \<Rightarrow> (skip (unat ((word_of_int len :: uint) - 2)) s1, header))"

subsection \<open>readStartOfScan (lines 174-246)\<close>

text \<open>\<open>header->colorComponents[i].used = false;\<close> for the listed indices.\<close>

fun clearUsed :: "nat list \<Rightarrow> Header \<Rightarrow> Header access" where
  "clearUsed [] header = Within header"
| "clearUsed (i # rest) header =
     (if 3 \<le> i then OutOfBounds (int i)
      else clearUsed rest
             (header\<lparr>colorComponents :=
                (colorComponents header)[i := (colorComponents header ! i)\<lparr>used := False\<rparr>]\<rparr>))"

text \<open>
  The loop over the components of the scan. The index \<open>componentID - 1\<close> is an \<open>int\<close>;
  the array \<open>colorComponents\<close> has 3 entries.
\<close>

fun scanComponents :: "nat \<Rightarrow> istream \<Rightarrow> Header \<Rightarrow> (bool \<times> istream \<times> Header) access" where
  "scanComponents 0 s header = Within (False, s, header)"
| "scanComponents (Suc n) s header =
     (case getByte s of
        (componentID0, s1) \<Rightarrow>
          let componentID = (if zeroBased header then componentID0 + 1 else componentID0)
          in if numComponents header < componentID then Within (True, s1, invalid header)
             else
               let idx = uint componentID - 1 in
               if idx < 0 \<or> 3 \<le> idx then OutOfBounds idx
               else
                 let component = colorComponents header ! nat idx in
                 if used component then Within (True, s1, invalid header)
                 else (case getByte s1 of
                         (huffmanTableIDs, s2) \<Rightarrow>
                           let component' = component
                                 \<lparr>used := True,
                                  huffmanDCTableID := drop_bit 4 huffmanTableIDs,
                                  huffmanACTableID := huffmanTableIDs AND 0x0F\<rparr>;
                               header1 = header
                                 \<lparr>colorComponents :=
                                    (colorComponents header)[nat idx := component']\<rparr>
                           in if 3 < huffmanDCTableID component'
                              then Within (True, s2, invalid header1)
                              else if 3 < huffmanACTableID component'
                              then Within (True, s2, invalid header1)
                              else scanComponents n s2 header1))"

definition readStartOfScan :: "istream \<Rightarrow> Header \<Rightarrow> (istream \<times> Header) access" where
  "readStartOfScan s header =
     (if numComponents header = 0 then Within (s, invalid header)
      else (case get16 s of
        (len, s1) \<Rightarrow>
          (case clearUsed [0..<unat (numComponents header)] header of
             OutOfBounds i \<Rightarrow> OutOfBounds i
           | Within header1 \<Rightarrow>
               (case getByte s1 of
                  (n, s2) \<Rightarrow>
                    (case scanComponents (unat n) s2 header1 of
                       OutOfBounds i \<Rightarrow> OutOfBounds i
                     | Within (returned, s3, header2) \<Rightarrow>
                         if returned then Within (s3, header2)
                         else (case getByte s3 of
                           (ss, s4) \<Rightarrow>
                             (case getByte s4 of
                                (se, s5) \<Rightarrow>
                                  (case getByte s5 of
                                     (successiveApproximation, s6) \<Rightarrow>
                                       let header3 = header2
                                             \<lparr>startOfSelection := ss,
                                              endOfSelection := se,
                                              successiveApproximationHigh :=
                                                drop_bit 4 successiveApproximation,
                                              successiveApproximationLow :=
                                                successiveApproximation AND 0x0F\<rparr>
                                       in if startOfSelection header3 \<noteq> 0 \<or>
                                             endOfSelection header3 \<noteq> 63
                                          then Within (s6, invalid header3)
                                          else if successiveApproximationHigh header3 \<noteq> 0 \<or>
                                                  successiveApproximationLow header3 \<noteq> 0
                                          then Within (s6, invalid header3)
                                          else if (word_of_int len :: uint) - 6 - 2 * ucast n \<noteq> 0
                                          then Within (s6, invalid header3)
                                          else Within (s6, header3)))))))))"

subsection \<open>The stream only shrinks\<close>

text \<open>The bytes left, plus one while the stream has not failed.\<close>

definition left :: "istream \<Rightarrow> nat" where
  "left s = length (remaining s) + (if failed s then 0 else 1)"

definition shrinks :: "istream \<Rightarrow> istream \<Rightarrow> bool" where
  "shrinks s s' = (length (remaining s') \<le> length (remaining s) \<and> left s' \<le> left s)"

lemma shrinks_refl: "shrinks s s"
  by (simp add: shrinks_def)

lemma shrinks_trans: "shrinks s s1 \<Longrightarrow> shrinks s1 s2 \<Longrightarrow> shrinks s s2"
  by (auto simp: shrinks_def)

lemma get_shrinks: "shrinks s (snd (get s))"
  by (auto simp: shrinks_def left_def get_def split: list.splits)

lemma get_left: "\<not> failed s \<Longrightarrow> left (snd (get s)) < left s"
  by (auto simp: left_def get_def split: list.splits)

lemma getByte_shrinks: "shrinks s (snd (getByte s))"
  using get_shrinks [of s] by (cases "get s") (simp add: getByte_def)

lemma getByte_left: "\<not> failed s \<Longrightarrow> left (snd (getByte s)) < left s"
  using get_left [of s] by (cases "get s") (simp add: getByte_def)

lemma get16_shrinks: "shrinks s (snd (get16 s))"
proof -
  obtain a s1 where g1: "get s = (a, s1)" by (cases "get s")
  obtain b s2 where g2: "get s1 = (b, s2)" by (cases "get s1")
  have "shrinks s s1" using get_shrinks [of s] g1 by simp
  moreover have "shrinks s1 s2" using get_shrinks [of s1] g2 by simp
  ultimately show ?thesis using g1 g2 by (simp add: get16_def shrinks_trans)
qed

lemma skip_shrinks: "shrinks s (skip n s)"
  by (auto simp: shrinks_def left_def skip_def)

lemma skip_0: "skip 0 s = s"
  by (simp add: skip_def)

lemma skip_Suc: "skip (Suc n) s = skip n (snd (get s))"
  by (cases "remaining s") (auto simp: skip_def get_def)

lemma get_le: "get s = (v, s') \<Longrightarrow> shrinks s s'"
  using get_shrinks [of s] by simp

lemma getByte_le: "getByte s = (v, s') \<Longrightarrow> shrinks s s'"
  using getByte_shrinks [of s] by simp

lemma get16_le: "get16 s = (v, s') \<Longrightarrow> shrinks s s'"
  using get16_shrinks [of s] by simp

lemma frameComponents_le: "frameComponents n s header = (r, s', header') \<Longrightarrow> shrinks s s'"
proof (induction n arbitrary: s header)
  case 0
  then show ?case by (simp add: shrinks_refl)
next
  case (Suc n)
  obtain c s1 where g1: "getByte s = (c, s1)" by (cases "getByte s")
  obtain f s2 where g2: "getByte s1 = (f, s2)" by (cases "getByte s1")
  obtain q s3 where g3: "getByte s2 = (q, s3)" by (cases "getByte s2")
  have l1: "shrinks s s1" using g1 by (rule getByte_le)
  have l2: "shrinks s s2" using l1 getByte_le [OF g2] by (rule shrinks_trans)
  have l3: "shrinks s s3" using l2 getByte_le [OF g3] by (rule shrinks_trans)
  have "s' = s1 \<or> s' = s3 \<or> (\<exists>h. frameComponents n s3 h = (r, s', header'))"
    using Suc.prems g1 g2 g3 by (auto simp: Let_def split: if_splits)
  then show ?case using l1 l3 Suc.IH shrinks_trans by blast
qed

lemma readStartOfFrame_le: "readStartOfFrame s header = (s', header') \<Longrightarrow> shrinks s s'"
proof -
  assume a: "readStartOfFrame s header = (s', header')"
  obtain len s1 where g1: "get16 s = (len, s1)" by (cases "get16 s")
  obtain p s2 where g2: "getByte s1 = (p, s2)" by (cases "getByte s1")
  obtain h s3 where g3: "get16 s2 = (h, s3)" by (cases "get16 s2")
  obtain w s4 where g4: "get16 s3 = (w, s4)" by (cases "get16 s3")
  obtain n s5 where g5: "getByte s4 = (n, s5)" by (cases "getByte s4")
  have l2: "shrinks s s2" using get16_le [OF g1] getByte_le [OF g2] by (rule shrinks_trans)
  have l4: "shrinks s s4"
    using l2 shrinks_trans [OF get16_le [OF g3] get16_le [OF g4]] by (rule shrinks_trans)
  have l5: "shrinks s s5" using l4 getByte_le [OF g5] by (rule shrinks_trans)
  have "s' = s \<or> s' = s2 \<or> s' = s4 \<or> s' = s5 \<or>
        (\<exists>k h r h'. frameComponents k s5 h = (r, s', h'))"
    using a g1 g2 g3 g4 g5
    by (auto simp: readStartOfFrame_def Let_def split: if_splits prod.splits)
  then show ?thesis
    using shrinks_refl l2 l4 l5 frameComponents_le shrinks_trans by blast
qed

lemma readEntries16_le: "readEntries16 n s = (vs, s') \<Longrightarrow> shrinks s s'"
proof (induction n arbitrary: s vs s')
  case 0
  then show ?case by (simp add: shrinks_refl)
next
  case (Suc n)
  obtain v s1 where g: "get16 s = (v, s1)" by (cases "get16 s")
  obtain ws s2 where r: "readEntries16 n s1 = (ws, s2)" by (cases "readEntries16 n s1")
  have "s' = s2" using Suc.prems g r by simp
  then show ?case using get16_le [OF g] Suc.IH [OF r] shrinks_trans by blast
qed

lemma readEntries8_le: "readEntries8 n s = (vs, s') \<Longrightarrow> shrinks s s'"
proof (induction n arbitrary: s vs s')
  case 0
  then show ?case by (simp add: shrinks_refl)
next
  case (Suc n)
  obtain v s1 where g: "get s = (v, s1)" by (cases "get s")
  obtain ws s2 where r: "readEntries8 n s1 = (ws, s2)" by (cases "readEntries8 n s1")
  have "s' = s2" using Suc.prems g r by simp
  then show ?case using get_le [OF g] Suc.IH [OF r] shrinks_trans by blast
qed

lemma quantizationLoop_le:
  "quantizationLoop len s header = (r, len', s', header') \<Longrightarrow> shrinks s s'"
proof (induction len s header rule: quantizationLoop.induct)
  case (1 len s header)
  show ?case
  proof (cases "0 < len")
    case False
    then show ?thesis using "1.prems" by (subst (asm) quantizationLoop.simps) (simp add: shrinks_refl)
  next
    case True
    obtain tableInfo s1 where g: "getByte s = (tableInfo, s1)" by (cases "getByte s")
    have l1: "shrinks s s1" using g by (rule getByte_le)
    show ?thesis
    proof (cases "3 < tableInfo AND 0x0F")
      case big: True
      then have "s' = s1"
        using True g "1.prems" by (subst (asm) quantizationLoop.simps) (simp add: Let_def)
      then show ?thesis using l1 by simp
    next
      case small: False
      show ?thesis
      proof (cases "drop_bit 4 tableInfo \<noteq> 0")
        case wide: True
        obtain vs s2 where e: "readEntries16 64 s1 = (vs, s2)" by (cases "readEntries16 64 s1")
        have "shrinks s2 s'"
          using "1.IH"(1) [OF True g [symmetric] refl small wide e [symmetric]] "1.prems" True g small wide e
          by (subst (asm) (2) quantizationLoop.simps) (simp add: Let_def)
        then show ?thesis using l1 readEntries16_le [OF e] shrinks_trans by blast
      next
        case narrow: False
        obtain vs s2 where e: "readEntries8 64 s1 = (vs, s2)" by (cases "readEntries8 64 s1")
        have "shrinks s2 s'"
          using "1.IH"(2) [OF True g [symmetric] refl small narrow e [symmetric]] "1.prems" True g small narrow e
          by (subst (asm) (2) quantizationLoop.simps) (simp add: Let_def)
        then show ?thesis using l1 readEntries8_le [OF e] shrinks_trans by blast
      qed
    qed
  qed
qed

lemma readQuantizationTable_le:
  assumes "readQuantizationTable s header = (s', header')"
  shows "shrinks s s'"
proof -
  obtain len s1 where g: "get16 s = (len, s1)" by (cases "get16 s")
  obtain r len' s2 h1 where q: "quantizationLoop (len - 2) s1 header = (r, len', s2, h1)"
    by (cases "quantizationLoop (len - 2) s1 header") auto
  have "s' = s2" using assms g q by (simp add: readQuantizationTable_def split: if_splits)
  then show ?thesis using get16_le [OF g] quantizationLoop_le [OF q] shrinks_trans by blast
qed

lemma readOffsets_le: "readOffsets n a s = (offs, a', s') \<Longrightarrow> shrinks s s'"
proof (induction n arbitrary: a s offs a' s')
  case 0
  then show ?case by (simp add: shrinks_refl)
next
  case (Suc n)
  obtain v s1 where g: "get s = (v, s1)" by (cases "get s")
  obtain os b s2 where r: "readOffsets n (a + word_of_int v) s1 = (os, b, s2)"
    by (cases "readOffsets n (a + word_of_int v) s1") auto
  have "s' = s2" using Suc.prems g r by simp
  then show ?case using get_le [OF g] Suc.IH [OF r] shrinks_trans by blast
qed

lemma readSymbols_le: "readSymbols n s = (vs, s') \<Longrightarrow> shrinks s s'"
proof (induction n arbitrary: s vs s')
  case 0
  then show ?case by (simp add: shrinks_refl)
next
  case (Suc n)
  obtain v s1 where g: "getByte s = (v, s1)" by (cases "getByte s")
  obtain ws s2 where r: "readSymbols n s1 = (ws, s2)" by (cases "readSymbols n s1")
  have "s' = s2" using Suc.prems g r by simp
  then show ?case using getByte_le [OF g] Suc.IH [OF r] shrinks_trans by blast
qed

lemma huffmanLoop_le:
  "huffmanLoop len s header = (r, len', s', header') \<Longrightarrow> shrinks s s'"
proof (induction len s header rule: huffmanLoop.induct)
  case (1 len s header)
  show ?case
  proof (cases "0 < len")
    case False
    then show ?thesis using "1.prems" by (subst (asm) huffmanLoop.simps) (simp add: shrinks_refl)
  next
    case True
    obtain tableInfo s1 where g: "getByte s = (tableInfo, s1)" by (cases "getByte s")
    have l1: "shrinks s s1" using g by (rule getByte_le)
    show ?thesis
    proof (cases "3 < tableInfo AND 0x0F")
      case big: True
      then have "s' = s1"
        using True g "1.prems" by (subst (asm) huffmanLoop.simps) (simp add: Let_def)
      then show ?thesis using l1 by simp
    next
      case small: False
      obtain offs allSymbols s2 where o: "readOffsets 16 0 s1 = (offs, allSymbols, s2)"
        by (cases "readOffsets 16 0 s1") auto
      have l2: "shrinks s s2" using l1 readOffsets_le [OF o] by (rule shrinks_trans)
      show ?thesis
      proof (cases "162 < allSymbols")
        case many: True
        then have "s' = s2"
          using True g small o "1.prems" by (subst (asm) huffmanLoop.simps) (simp add: Let_def)
        then show ?thesis using l2 by simp
      next
        case few: False
        obtain syms s3 where y: "readSymbols (unat allSymbols) s2 = (syms, s3)"
          by (cases "readSymbols (unat allSymbols) s2")
        have "shrinks s3 s'"
          using "1.IH" [OF True g [symmetric] refl refl small refl o [symmetric] refl refl few y [symmetric]]
            "1.prems" True g small o few y
          by (subst (asm) (2) huffmanLoop.simps) (simp add: Let_def)
        then show ?thesis using l2 readSymbols_le [OF y] shrinks_trans by blast
      qed
    qed
  qed
qed

lemma readHuffmanTable_le:
  assumes "readHuffmanTable s header = (s', header')"
  shows "shrinks s s'"
proof -
  obtain len s1 where g: "get16 s = (len, s1)" by (cases "get16 s")
  obtain r len' s2 h1 where q: "huffmanLoop (len - 2) s1 header = (r, len', s2, h1)"
    by (cases "huffmanLoop (len - 2) s1 header") auto
  have "s' = s2" using assms g q by (simp add: readHuffmanTable_def split: if_splits)
  then show ?thesis using get16_le [OF g] huffmanLoop_le [OF q] shrinks_trans by blast
qed

lemma readRestartInterval_le:
  assumes "readRestartInterval s header = (s', header')"
  shows "shrinks s s'"
proof -
  obtain len s1 where g1: "get16 s = (len, s1)" by (cases "get16 s")
  obtain v s2 where g2: "get16 s1 = (v, s2)" by (cases "get16 s1")
  have "s' = s2" using assms g1 g2 by (simp add: readRestartInterval_def Let_def split: if_splits)
  then show ?thesis using get16_le [OF g1] get16_le [OF g2] shrinks_trans by blast
qed

lemma readAPPN_le:
  assumes "readAPPN s header = (s', header')"
  shows "shrinks s s'"
proof -
  obtain len s1 where g1: "get16 s = (len, s1)" by (cases "get16 s")
  have "s' = skip (unat ((word_of_int len :: uint) - 2)) s1"
    using assms g1 by (simp add: readAPPN_def)
  then show ?thesis using get16_le [OF g1] skip_shrinks shrinks_trans by blast
qed

lemma readComment_le:
  assumes "readComment s header = (s', header')"
  shows "shrinks s s'"
proof -
  obtain len s1 where g1: "get16 s = (len, s1)" by (cases "get16 s")
  have "s' = skip (unat ((word_of_int len :: uint) - 2)) s1"
    using assms g1 by (simp add: readComment_def)
  then show ?thesis using get16_le [OF g1] skip_shrinks shrinks_trans by blast
qed

text \<open>Two reads after a segment: strictly less is left.\<close>

lemma advance_left:
  assumes "shrinks s s1" and "\<not> failed s"
    and "getByte s1 = (a, s2)" and "getByte s2 = (b, s3)"
  shows "left s3 < left s"
proof (cases "failed s1")
  case True
  then have "left s1 < left s" using assms(1,2) by (auto simp: shrinks_def left_def)
  moreover have "left s3 \<le> left s1"
    using getByte_le [OF assms(3)] getByte_le [OF assms(4)] by (auto simp: shrinks_def)
  ultimately show ?thesis by simp
next
  case False
  then have "left s2 < left s1" using getByte_left [of s1] assms(3) by simp
  moreover have "left s3 \<le> left s2" using getByte_le [OF assms(4)] by (simp add: shrinks_def)
  moreover have "left s1 \<le> left s" using assms(1) by (simp add: shrinks_def)
  ultimately show ?thesis by simp
qed

subsection \<open>readJPG (lines 277-502)\<close>

text \<open>\<open>last = inFile.get(); current = inFile.get();\<close>\<close>

definition advance :: "istream \<Rightarrow> byte \<times> byte \<times> istream" where
  "advance s =
     (case getByte s of (lastB, s1) \<Rightarrow> (case getByte s1 of (current, s2) \<Rightarrow> (lastB, current, s2)))"

lemma advance_less:
  assumes "shrinks s s1" and "\<not> failed s" and "advance s1 = (a, b, s3)"
  shows "left s3 < left s"
proof -
  obtain x s2 where g1: "getByte s1 = (x, s2)" by (cases "getByte s1")
  obtain y s4 where g2: "getByte s2 = (y, s4)" by (cases "getByte s2")
  have "s3 = s4" using assms(3) g1 g2 by (simp add: advance_def)
  then show ?thesis using advance_left [OF assms(1,2) g1 g2] by simp
qed

text \<open>
  The loop over the markers ends in one of two ways: the function returns the header
  (\<open>ReturnHeader\<close>), or the loop is left, by \<open>break\<close> after SOS or because the header is
  not valid any more (\<open>LoopEnd\<close>).
\<close>

datatype loopExit = ReturnHeader Header | LoopEnd istream Header

function readMarkers :: "byte \<Rightarrow> byte \<Rightarrow> istream \<Rightarrow> Header \<Rightarrow> loopExit access" where
  "readMarkers lastB current s header =
     (if valid header then
        if failed s then Within (ReturnHeader (invalid header))
        else if lastB \<noteq> 0xFF then Within (ReturnHeader (invalid header))
        else if current = SOF0 then
          (case readStartOfFrame s (header\<lparr>frameType := SOF0\<rparr>) of
             (s1, header1) \<Rightarrow>
               (case advance s1 of (lastB', current', s2) \<Rightarrow> readMarkers lastB' current' s2 header1))
        else if current = DQT then
          (case readQuantizationTable s header of
             (s1, header1) \<Rightarrow>
               (case advance s1 of (lastB', current', s2) \<Rightarrow> readMarkers lastB' current' s2 header1))
        else if current = DHT then
          (case readHuffmanTable s header of
             (s1, header1) \<Rightarrow>
               (case advance s1 of (lastB', current', s2) \<Rightarrow> readMarkers lastB' current' s2 header1))
        else if current = SOS then
          (case readStartOfScan s header of
             OutOfBounds i \<Rightarrow> OutOfBounds i
           | Within (s1, header1) \<Rightarrow> Within (LoopEnd s1 header1))
        else if current = DRI then
          (case readRestartInterval s header of
             (s1, header1) \<Rightarrow>
               (case advance s1 of (lastB', current', s2) \<Rightarrow> readMarkers lastB' current' s2 header1))
        else if APP0 \<le> current \<and> current \<le> APP15 then
          (case readAPPN s header of
             (s1, header1) \<Rightarrow>
               (case advance s1 of (lastB', current', s2) \<Rightarrow> readMarkers lastB' current' s2 header1))
        else if current = COM then
          (case readComment s header of
             (s1, header1) \<Rightarrow>
               (case advance s1 of (lastB', current', s2) \<Rightarrow> readMarkers lastB' current' s2 header1))
        else if (JPG0 \<le> current \<and> current \<le> JPG13) \<or>
                current = DNL \<or> current = DHP \<or> current = EXP then
          (case readComment s header of
             (s1, header1) \<Rightarrow>
               (case advance s1 of (lastB', current', s2) \<Rightarrow> readMarkers lastB' current' s2 header1))
        else if current = TEM then
          (case advance s of (lastB', current', s2) \<Rightarrow> readMarkers lastB' current' s2 header)
        else if current = 0xFF then
          (case getByte s of (current', s1) \<Rightarrow> readMarkers lastB current' s1 header)
        else if current = SOI then Within (ReturnHeader (invalid header))
        else if current = EOI then Within (ReturnHeader (invalid header))
        else if current = DAC then Within (ReturnHeader (invalid header))
        else if SOF0 \<le> current \<and> current \<le> SOF15 then Within (ReturnHeader (invalid header))
        else if RST0 \<le> current \<and> current \<le> RST7 then Within (ReturnHeader (invalid header))
        else Within (ReturnHeader (invalid header))
      else Within (LoopEnd s header))"
  by pat_completeness auto
termination
  apply (relation "measure (\<lambda>(lastB, current, s, header). left s)")
  subgoal by simp
  subgoal for lastB current s header s1 header1 lastB' rest current' s2
    using advance_less [OF readStartOfFrame_le, of s "header\<lparr>frameType := SOF0\<rparr>" s1 header1 lastB' current' s2]
    by simp
  subgoal for lastB current s header s1 header1 lastB' rest current' s2
    using advance_less [OF readQuantizationTable_le, of s header s1 header1 lastB' current' s2]
    by simp
  subgoal for lastB current s header s1 header1 lastB' rest current' s2
    using advance_less [OF readHuffmanTable_le, of s header s1 header1 lastB' current' s2]
    by simp
  subgoal for lastB current s header s1 header1 lastB' rest current' s2
    using advance_less [OF readRestartInterval_le, of s header s1 header1 lastB' current' s2]
    by simp
  subgoal for lastB current s header s1 header1 lastB' rest current' s2
    using advance_less [OF readAPPN_le, of s header s1 header1 lastB' current' s2]
    by simp
  subgoal for lastB current s header s1 header1 lastB' rest current' s2
    using advance_less [OF readComment_le, of s header s1 header1 lastB' current' s2]
    by simp
  subgoal for lastB current s header s1 header1 lastB' rest current' s2
    using advance_less [OF readComment_le, of s header s1 header1 lastB' current' s2]
    by simp
  subgoal for lastB current s header lastB' rest current' s2
    using advance_less [OF shrinks_refl, of s lastB' current' s2]
    by simp
  subgoal for lastB current s header current' s1
    using getByte_left [of s] by (cases "getByte s") simp
  done

text \<open>
  The loop over the entropy-coded data (lines 403-445). The flag of the result is true
  when the loop is left at EOI, and false when the function returns a header that is not
  valid; the bytes are \<open>huffmanData\<close> as the loop leaves it.
\<close>

function scanLoop :: "byte \<Rightarrow> istream \<Rightarrow> byte list \<Rightarrow> bool \<times> istream \<times> byte list" where
  "scanLoop current s payload =
     (if failed s then (False, s, payload)
      else
        let lastB = current in
        (case getByte s of
           (current1, s1) \<Rightarrow>
             if lastB = 0xFF then
               if current1 = EOI then (True, s1, payload)
               else if current1 = 0x00 then
                 (case getByte s1 of
                    (current2, s2) \<Rightarrow> scanLoop current2 s2 (payload @ [lastB]))
               else if RST0 \<le> current1 \<and> current1 \<le> RST7 then
                 (case getByte s1 of (current2, s2) \<Rightarrow> scanLoop current2 s2 payload)
               else if current1 = 0xFF then scanLoop current1 s1 payload
               else (False, s1, payload)
             else scanLoop current1 s1 (payload @ [lastB])))"
  by pat_completeness auto
termination
  apply (relation "measure (\<lambda>(current, s, payload). left s)")
  subgoal by simp
  subgoal for current s payload lastB current1 s1 current2 s2
    using getByte_left [of s] getByte_le [of s1 current2 s2]
    by (cases "getByte s") (auto simp: shrinks_def)
  subgoal for current s payload lastB current1 s1 current2 s2
    using getByte_left [of s] getByte_le [of s1 current2 s2]
    by (cases "getByte s") (auto simp: shrinks_def)
  subgoal for current s payload lastB current1 s1
    using getByte_left [of s] by (cases "getByte s") auto
  subgoal for current s payload lastB current1 s1
    using getByte_left [of s] by (cases "getByte s") auto
  done

declare scanLoop.simps [simp del]

text \<open>The checks of the tables of each component (lines 479-498).\<close>

fun checkTables :: "nat list \<Rightarrow> Header \<Rightarrow> Header access" where
  "checkTables [] header = Within header"
| "checkTables (i # rest) header =
     (let component = colorComponents header ! i in
      if 3 < quantizationTableID component then OutOfBounds (uint (quantizationTableID component))
      else if \<not> set_flag (quantizationTables header ! unat (quantizationTableID component))
      then Within (invalid header)
      else if 3 < huffmanDCTableID component then OutOfBounds (uint (huffmanDCTableID component))
      else if \<not> hset (huffmanDCTables header ! unat (huffmanDCTableID component))
      then Within (invalid header)
      else if 3 < huffmanACTableID component then OutOfBounds (uint (huffmanACTableID component))
      else if \<not> hset (huffmanACTables header ! unat (huffmanACTableID component))
      then Within (invalid header)
      else checkTables rest header)"

text \<open>Lines 448-501.\<close>

definition validateHeader :: "Header \<Rightarrow> Header access" where
  "validateHeader header =
     (if numComponents header \<noteq> 1 \<and> numComponents header \<noteq> 3 then Within (invalid header)
      else if horizontalSamplingFactor (colorComponents header ! 0) \<noteq> 1 \<or>
              verticalSamplingFactor (colorComponents header ! 0) \<noteq> 1
      then Within (invalid header)
      else if numComponents header = 3 \<and>
              (horizontalSamplingFactor (colorComponents header ! 1) \<noteq> 1 \<or>
               verticalSamplingFactor (colorComponents header ! 1) \<noteq> 1)
      then Within (invalid header)
      else if numComponents header = 3 \<and>
              (horizontalSamplingFactor (colorComponents header ! 2) \<noteq> 1 \<or>
               verticalSamplingFactor (colorComponents header ! 2) \<noteq> 1)
      then Within (invalid header)
      else checkTables [0..<unat (numComponents header)] header)"

text \<open>\<open>current = inFile.get();\<close> and the loop (lines 401-445).\<close>

definition readScanData :: "istream \<Rightarrow> byte list \<Rightarrow> bool \<times> istream \<times> byte list" where
  "readScanData s payload = (case getByte s of (current, s1) \<Rightarrow> scanLoop current s1 payload)"

text \<open>What follows the loop over the markers (lines 399-501).\<close>

definition afterMarkers :: "istream \<Rightarrow> Header \<Rightarrow> Header access" where
  "afterMarkers s header =
     (if valid header then
        (case readScanData s (huffmanData header) of
           (atEOI, s2, bytes) \<Rightarrow>
             if atEOI then validateHeader (header\<lparr>huffmanData := bytes\<rparr>)
             else Within (invalid (header\<lparr>huffmanData := bytes\<rparr>)))
      else validateHeader header)"

text \<open>
  \<open>file\<close> is the content of the input file, or \<open>None\<close> when it cannot be opened;
  \<open>allocated\<close> says whether \<open>new (std::nothrow) Header\<close> gives a header. The result
  \<open>None\<close> is \<open>nullptr\<close>.
\<close>

definition readJPG :: "byte list option \<Rightarrow> bool \<Rightarrow> Header option access" where
  "readJPG file allocated =
     (case file of
        None \<Rightarrow> Within None
      | Some content \<Rightarrow>
          if \<not> allocated then Within None
          else
            (case advance \<lparr>remaining = content, failed = False\<rparr> of
               (lastB, current, s1) \<Rightarrow>
                 if lastB \<noteq> 0xFF \<or> current \<noteq> SOI then Within (Some (invalid emptyHeader))
                 else
                   (case advance s1 of
                      (lastB1, current1, s2) \<Rightarrow>
                        (case readMarkers lastB1 current1 s2 emptyHeader of
                           OutOfBounds i \<Rightarrow> OutOfBounds i
                         | Within (ReturnHeader header) \<Rightarrow> Within (Some header)
                         | Within (LoopEnd s3 header) \<Rightarrow>
                             (case afterMarkers s3 header of
                                OutOfBounds i \<Rightarrow> OutOfBounds i
                              | Within header1 \<Rightarrow> Within (Some header1))))))"

subsection \<open>class BitReader (lines 585-637)\<close>

record BitReader =
  nextByte :: nat
  nextBit :: nat
  data :: "byte list"

text \<open>\<open>readBit\<close> returns \<open>-1\<close> once every bit has been read.\<close>

definition readBit :: "BitReader \<Rightarrow> int \<times> BitReader" where
  "readBit b =
     (if length (data b) \<le> nextByte b then (- 1, b)
      else
        let bt = drop_bit (7 - nextBit b) (uint (data b ! nextByte b)) AND 1 in
        if nextBit b + 1 = 8 then (bt, b\<lparr>nextBit := 0, nextByte := nextByte b + 1\<rparr>)
        else (bt, b\<lparr>nextBit := nextBit b + 1\<rparr>))"

text \<open>
  The loop of \<open>readBits\<close>; the first argument counts the iterations left. \<open>bits\<close> is a
  32-bit \<open>int\<close>, and \<open>bits << 1\<close> keeps the low 32 bits of the doubled value, read as a
  signed number: the value that C++20 defines for the shift, and the one that the
  machine computes. Up to 31 bits read, nothing is cut off.
\<close>

fun readBitsLoop :: "nat \<Rightarrow> int \<Rightarrow> BitReader \<Rightarrow> int \<times> BitReader" where
  "readBitsLoop 0 bits b = (bits, b)"
| "readBitsLoop (Suc n) bits b =
     (case readBit b of
        (bt, b') \<Rightarrow>
          if bt = - 1 then (- 1, b')
          else readBitsLoop n (signed_take_bit 31 (push_bit 1 bits OR bt)) b')"

definition readBits :: "nat \<Rightarrow> BitReader \<Rightarrow> int \<times> BitReader" where
  "readBits len b = readBitsLoop len 0 b"

definition align :: "BitReader \<Rightarrow> BitReader" where
  "align b =
     (if length (data b) \<le> nextByte b then b
      else if nextBit b \<noteq> 0 then b\<lparr>nextBit := 0, nextByte := nextByte b + 1\<rparr>
      else b)"

subsection \<open>generateCodes (lines 573-582)\<close>

fun assignCodes :: "nat list \<Rightarrow> int \<Rightarrow> int list \<Rightarrow> int \<times> int list" where
  "assignCodes [] code codes = (code, codes)"
| "assignCodes (k # ks) code codes = assignCodes ks (code + 1) (codes[k := code])"

fun generateLoop :: "HuffmanTable \<Rightarrow> nat list \<Rightarrow> int \<Rightarrow> int list \<Rightarrow> int list" where
  "generateLoop hTable [] code codes = codes"
| "generateLoop hTable (j # js) code codes =
     (case assignCodes [unat (offsets hTable ! j) ..< unat (offsets hTable ! (j + 1))] code codes of
        (code', codes') \<Rightarrow> generateLoop hTable js (push_bit 1 code') codes')"

definition generateCodes :: "HuffmanTable \<Rightarrow> int list \<Rightarrow> int list" where
  "generateCodes hTable codes = generateLoop hTable [0..<16] 0 codes"

subsection \<open>getNextSymbol (lines 641-652)\<close>

text \<open>
  The loop over the code lengths; \<open>j\<close> is the loop counter. The function returns a
  \<open>byte\<close>, so the \<open>-1\<close> of the last line is the byte 255.
\<close>

function symbolLoop :: "int list \<Rightarrow> HuffmanTable \<Rightarrow> nat \<Rightarrow> int \<Rightarrow> BitReader \<Rightarrow> byte \<times> BitReader" where
  "symbolLoop codes hTable j currentCode b =
     (if j < 16 then
        (case find (\<lambda>k. currentCode = codes ! k)
                [unat (offsets hTable ! j) ..< unat (offsets hTable ! (j + 1))] of
           Some k \<Rightarrow> (symbols hTable ! k, b)
         | None \<Rightarrow>
             (case readBit b of
                (bt, b') \<Rightarrow> symbolLoop codes hTable (j + 1) (push_bit 1 currentCode OR bt) b'))
      else (- 1, b))"
  by pat_completeness auto
termination
  by (relation "measure (\<lambda>(codes, hTable, j, currentCode, b). 16 - j)") auto

declare symbolLoop.simps [simp del]

definition getNextSymbol :: "BitReader \<Rightarrow> int list \<Rightarrow> HuffmanTable \<Rightarrow> byte \<times> BitReader" where
  "getNextSymbol b codes hTable =
     (case readBit b of (bt, b') \<Rightarrow> symbolLoop codes hTable 0 bt b')"

subsection \<open>decodeMCUComponent (lines 656-723)\<close>

text \<open>\<open>for (; i < 64; ++i) component[zigZagMap[i]] = 0;\<close> over the listed positions.\<close>

fun fillZero :: "nat list \<Rightarrow> int list \<Rightarrow> int list" where
  "fillZero [] component = component"
| "fillZero (i # rest) component = fillZero rest (component[zigZagMap ! i := 0])"

text \<open>
  \<open>for (uint j = 0; j < numZeroes && i < 64; ++j, ++i) component[zigZagMap[i]] = 0;\<close>
  The first argument is \<open>numZeroes - j\<close>; the result is the final \<open>i\<close> and the block.
\<close>

fun zeroRun :: "nat \<Rightarrow> nat \<Rightarrow> int list \<Rightarrow> nat \<times> int list" where
  "zeroRun 0 i component = (i, component)"
| "zeroRun (Suc n) i component =
     (if i < 64 then zeroRun n (Suc i) (component[zigZagMap ! i := 0]) else (i, component))"

text \<open>
  One pass through the body of the loop over the AC coefficients, at position \<open>i\<close>:
  either the function returns (\<open>Return\<close>), or the body ends with position \<open>i'\<close>, and
  the loop's \<open>++i\<close> follows (\<open>Next\<close>). The test \<open>symbol == -1\<close> compares a \<open>byte\<close>,
  promoted to \<open>int\<close>, with \<open>-1\<close>.
\<close>

datatype acResult = Return "(BitReader \<times> int list) outcome" | Next nat BitReader "int list"

definition acStep :: "int list \<Rightarrow> HuffmanTable \<Rightarrow> nat \<Rightarrow> BitReader \<Rightarrow> int list \<Rightarrow> acResult" where
  "acStep acCodes acTable i b component =
     (case getNextSymbol b acCodes acTable of
        (symbol, b1) \<Rightarrow>
          if uint symbol = - 1 then Return Failed
          else if symbol = 0 then Return (Ok (b1, fillZero [i..<64] component))
          else
            let numZeroes = unat (drop_bit 4 symbol);
                coeffLength = unat (symbol AND 0x0F)
            in (case zeroRun numZeroes i component of
                  (i', component') \<Rightarrow>
                    if 10 < coeffLength then Return Failed
                    else if coeffLength \<noteq> 0 then
                      (if i' = 64 then Return Failed
                       else (case readBits coeffLength b1 of
                               (coeff, b2) \<Rightarrow>
                                 if coeff = - 1 then Return Failed
                                 else Next i' b2
                                   (component'[zigZagMap ! i' := extendAC coeffLength coeff])))
                    else Next i' b1 component'))"

lemma zeroRun_index: "i \<le> fst (zeroRun n i component)"
  by (induction n arbitrary: i component) (auto intro: Suc_leD)

lemma acStep_Next_index:
  assumes "acStep acCodes acTable i b component = Next i' b' component'"
  shows "i \<le> i'"
proof -
  obtain symbol b1 where s: "getNextSymbol b acCodes acTable = (symbol, b1)"
    by (cases "getNextSymbol b acCodes acTable")
  obtain i0 c0 where z: "zeroRun (unat (drop_bit 4 symbol)) i component = (i0, c0)"
    by (cases "zeroRun (unat (drop_bit 4 symbol)) i component")
  have "i \<le> i0" using zeroRun_index [of i "unat (drop_bit 4 symbol)" component] z by simp
  moreover have "i' = i0"
    using assms s z
    by (auto simp: acStep_def Let_def split: if_splits prod.splits)
  ultimately show ?thesis by simp
qed

function acLoop :: "int list \<Rightarrow> HuffmanTable \<Rightarrow> nat \<Rightarrow> BitReader \<Rightarrow> int list \<Rightarrow> (BitReader \<times> int list) outcome" where
  "acLoop acCodes acTable i b component =
     (if i < 64 then
        (case acStep acCodes acTable i b component of
           Return r \<Rightarrow> r
         | Next i' b' component' \<Rightarrow> acLoop acCodes acTable (i' + 1) b' component')
      else Ok (b, component))"
  by pat_completeness auto
termination
proof (relation "measure (\<lambda>(acCodes, acTable, i, b, component). 64 - i)")
  show "wf (measure (\<lambda>(acCodes, acTable, i, b, component). 64 - i))" by simp
next
  fix acCodes acTable i b component i' b' component'
  assume "i < 64" and "acStep acCodes acTable i b component = Next i' b' component'"
  then have "i \<le> i'" using acStep_Next_index by blast
  with \<open>i < 64\<close>
  show "((acCodes, acTable, i' + 1, b', component'), (acCodes, acTable, i, b, component))
          \<in> measure (\<lambda>(acCodes, acTable, i, b, component). 64 - i)"
    by simp
qed

declare acLoop.simps [simp del]

text \<open>
  Lines 670-672 for a DC size \<open>length\<close> of any value that a table can hold, on a 32-bit
  \<open>int\<close>; \<open>None\<close> is undefined behaviour.
  \<^item> Up to the size 30 no shift leaves the range of the \<open>int\<close>, and the lines are
    \<open>extendDC\<close>.
  \<^item> For the size 31 the test compares with \<open>1 << 30\<close>. A value below it is changed by
    \<open>(1 << 31) - 1\<close>, where \<open>1 << 31\<close> is the least \<open>int\<close> and the subtraction overflows;
    a value from \<open>1 << 30\<close> on is kept.
  \<^item> For the size 32 the test compares with \<open>1 << 31\<close>, the least \<open>int\<close>; no value is
    below it, and every value is kept.
  \<^item> From the size 33 on, \<open>1 << (length - 1)\<close> shifts by 32 or more.
\<close>

definition dcCoefficient :: "nat \<Rightarrow> int \<Rightarrow> int option" where
  "dcCoefficient len coeff =
     (if len \<le> 30 then Some (extendDC len coeff)
      else if len = 31 then (if coeff < 2 ^ 30 then None else Some coeff)
      else if len = 32 then Some coeff
      else None)"

text \<open>
  The whole function. The result \<open>Failed\<close> is the return value \<open>false\<close>; \<open>Ok\<close> carries
  the bit reader and the block as the call leaves them; \<open>Undefined\<close> is a shift or a sum
  outside the range of the 32-bit \<open>int\<close>.
\<close>

definition decodeMCUComponent ::
  "BitReader \<Rightarrow> int list \<Rightarrow> int \<Rightarrow> int list \<Rightarrow> HuffmanTable \<Rightarrow> int list \<Rightarrow> HuffmanTable
     \<Rightarrow> (BitReader \<times> int list) outcome" where
  "decodeMCUComponent b component previousDC dcCodes dcTable acCodes acTable =
     (case getNextSymbol b dcCodes dcTable of
        (len, b1) \<Rightarrow>
          if len = - 1 then Failed
          else (case readBits (unat len) b1 of
                  (coeff, b2) \<Rightarrow>
                    if coeff = - 1 then Failed
                    else (case dcCoefficient (unat len) coeff of
                            None \<Rightarrow> Undefined
                          | Some coeff' \<Rightarrow>
                              if \<not> int32 (coeff' + previousDC) then Undefined
                              else acLoop acCodes acTable 1 b2
                                     (component[0 := coeff' + previousDC]))))"


subsection \<open>decodeHuffmanData (lines 726-793)\<close>

text \<open>
  The variables of the loop over the MCUs. \<open>numProcessed\<close> is a \<open>uint\<close> that counts
  the entries of the array, so it stays below \<open>2^32\<close> and is modelled by a \<open>nat\<close>.
\<close>

record DecodeState =
  reader :: BitReader
  previousYDC :: int
  previousCbDC :: int
  previousCrDC :: int
  numProcessed :: nat
  mcus :: "MCU list"

fun andThen :: "'a outcome \<Rightarrow> ('a \<Rightarrow> 'b outcome) \<Rightarrow> 'b outcome" where
  "andThen Undefined f = Undefined"
| "andThen Failed f = Failed"
| "andThen (Ok x) f = f x"

text \<open>Lines 760-766: the Y block of \<open>mcus[i]\<close>, then \<open>previousYDC = mcus[i].y[0]\<close>.\<close>

definition decodeY :: "Header \<Rightarrow> int list list \<Rightarrow> int list list \<Rightarrow> nat \<Rightarrow> DecodeState \<Rightarrow> DecodeState outcome" where
  "decodeY header dcCodes acCodes i st =
     (let yDCTableID = unat (huffmanDCTableID (colorComponents header ! 0));
          yACTableID = unat (huffmanACTableID (colorComponents header ! 0))
      in andThen
           (decodeMCUComponent (reader st) (y (mcus st ! i)) (previousYDC st)
              (dcCodes ! yDCTableID) (huffmanDCTables header ! yDCTableID)
              (acCodes ! yACTableID) (huffmanACTables header ! yACTableID))
           (\<lambda>(b', block).
              Ok (st\<lparr>reader := b',
                      mcus := (mcus st)[i := (mcus st ! i)\<lparr>y := block\<rparr>],
                      previousYDC := block ! 0\<rparr>)))"

text \<open>Lines 768-774.\<close>

definition decodeCb :: "Header \<Rightarrow> int list list \<Rightarrow> int list list \<Rightarrow> nat \<Rightarrow> DecodeState \<Rightarrow> DecodeState outcome" where
  "decodeCb header dcCodes acCodes i st =
     (let cbDCTableID = unat (huffmanDCTableID (colorComponents header ! 1));
          cbACTableID = unat (huffmanACTableID (colorComponents header ! 1))
      in andThen
           (decodeMCUComponent (reader st) (cb (mcus st ! i)) (previousCbDC st)
              (dcCodes ! cbDCTableID) (huffmanDCTables header ! cbDCTableID)
              (acCodes ! cbACTableID) (huffmanACTables header ! cbACTableID))
           (\<lambda>(b', block).
              Ok (st\<lparr>reader := b',
                      mcus := (mcus st)[i := (mcus st ! i)\<lparr>cb := block\<rparr>],
                      previousCbDC := block ! 0\<rparr>)))"

text \<open>Lines 775-781.\<close>

definition decodeCr :: "Header \<Rightarrow> int list list \<Rightarrow> int list list \<Rightarrow> nat \<Rightarrow> DecodeState \<Rightarrow> DecodeState outcome" where
  "decodeCr header dcCodes acCodes i st =
     (let crDCTableID = unat (huffmanDCTableID (colorComponents header ! 2));
          crACTableID = unat (huffmanACTableID (colorComponents header ! 2))
      in andThen
           (decodeMCUComponent (reader st) (cr (mcus st ! i)) (previousCrDC st)
              (dcCodes ! crDCTableID) (huffmanDCTables header ! crDCTableID)
              (acCodes ! crACTableID) (huffmanACTables header ! crACTableID))
           (\<lambda>(b', block).
              Ok (st\<lparr>reader := b',
                      mcus := (mcus st)[i := (mcus st ! i)\<lparr>cr := block\<rparr>],
                      previousCrDC := block ! 0\<rparr>)))"

text \<open>Lines 784-790: the count of the MCUs and the restart interval.\<close>

definition restartCheck :: "Header \<Rightarrow> DecodeState \<Rightarrow> DecodeState" where
  "restartCheck header st =
     (let st' = st\<lparr>numProcessed := numProcessed st + 1\<rparr> in
      if restartInterval header \<noteq> 0 \<and> numProcessed st' mod unat (restartInterval header) = 0
      then st'\<lparr>previousYDC := 0, previousCbDC := 0, previousCrDC := 0,
               reader := align (reader st')\<rparr>
      else st')"

text \<open>Lines 760-782: the blocks of \<open>mcus[i]\<close>.\<close>

definition decodeBlocks :: "Header \<Rightarrow> int list list \<Rightarrow> int list list \<Rightarrow> nat \<Rightarrow> DecodeState \<Rightarrow> DecodeState outcome" where
  "decodeBlocks header dcCodes acCodes i st =
     andThen (decodeY header dcCodes acCodes i st)
       (\<lambda>st1.
          if numComponents header = 3 then
            andThen (decodeCb header dcCodes acCodes i st1) (decodeCr header dcCodes acCodes i)
          else Ok st1)"

text \<open>The body of the loop, for the index \<open>i\<close>.\<close>

definition mcuStep :: "Header \<Rightarrow> int list list \<Rightarrow> int list list \<Rightarrow> nat \<Rightarrow> DecodeState \<Rightarrow> DecodeState outcome" where
  "mcuStep header dcCodes acCodes i st =
     andThen (decodeBlocks header dcCodes acCodes i st) (\<lambda>st'. Ok (restartCheck header st'))"

text \<open>
  The state after the first \<open>k\<close> passes of \<open>for (uint i = 0; i < mcuHeight * mcuWidth; ++i)\<close>;
  a failed block ends the loop (\<open>return nullptr\<close>).
\<close>

fun decodeMCUs :: "Header \<Rightarrow> int list list \<Rightarrow> int list list \<Rightarrow> nat \<Rightarrow> DecodeState \<Rightarrow> DecodeState outcome" where
  "decodeMCUs header dcCodes acCodes 0 st = Ok st"
| "decodeMCUs header dcCodes acCodes (Suc k) st =
     andThen (decodeMCUs header dcCodes acCodes k st) (mcuStep header dcCodes acCodes k)"

text \<open>
  The arrays \<open>dcCodes\<close> and \<open>acCodes\<close> are not initialised by the source; the entries
  that \<open>generateCodes\<close> does not write are never read for a table whose offsets grow,
  and are 0 here.
\<close>

definition allCodes :: "HuffmanTable list \<Rightarrow> int list list" where
  "allCodes tables =
     map (\<lambda>hTable. if hset hTable then generateCodes hTable (replicate 162 0)
                    else replicate 162 0) tables"

definition initialState :: "Header \<Rightarrow> MCU list \<Rightarrow> DecodeState" where
  "initialState header allocated =
     \<lparr>reader = \<lparr>nextByte = 0, nextBit = 0, data = huffmanData header\<rparr>,
      previousYDC = 0, previousCbDC = 0, previousCrDC = 0,
      numProcessed = 0, mcus = allocated\<rparr>"

text \<open>
  \<open>fresh\<close> stands for \<open>new (std::nothrow) MCU[mcuHeight * mcuWidth]\<close>: \<open>None\<close> when
  the allocation fails, and otherwise the contents of each entry of the new array, which
  the MCU struct of jpg.h decides. The result \<open>Failed\<close> is the return value \<open>nullptr\<close>.
\<close>

definition decodeHuffmanData :: "Header \<Rightarrow> (nat \<Rightarrow> MCU) option \<Rightarrow> MCU list outcome" where
  "decodeHuffmanData header fresh =
     (let mcuHeight = (height header + 7) div 8;
          mcuWidth = (width header + 7) div 8
      in case fresh of
           None \<Rightarrow> Failed
         | Some entry \<Rightarrow>
             andThen
               (decodeMCUs header (allCodes (huffmanDCTables header))
                  (allCodes (huffmanACTables header)) (unat (mcuHeight * mcuWidth))
                  (initialState header (map entry [0..<unat (mcuHeight * mcuWidth)])))
               (\<lambda>st. Ok (mcus st)))"

subsection \<open>writeBMP and main (lines 904-1014)\<close>

definition putInt :: "int \<Rightarrow> byte list" where
  "putInt v = [word_of_int v, word_of_int (drop_bit 8 v), word_of_int (drop_bit 16 v),
               word_of_int (drop_bit 24 v)]"

definition putShort :: "int \<Rightarrow> byte list" where
  "putShort v = [word_of_int v, word_of_int (drop_bit 8 v)]"

text \<open>
  The bytes of one row of pixels. The arrays \<open>r\<close>, \<open>g\<close> and \<open>b\<close> of an MCU share the
  storage of \<open>y\<close>, \<open>cb\<close> and \<open>cr\<close>.
\<close>

definition pixelRow :: "Header \<Rightarrow> MCU list \<Rightarrow> nat \<Rightarrow> byte list" where
  "pixelRow header mcus' i =
     (let mcuWidth = unat ((width header + 7) div 8);
          paddingSize = unat ((4 - (width header * 3) mod 4) mod 4)
      in concat (map (\<lambda>j.
                   let mcuIndex = (i div 8) * mcuWidth + j div 8;
                       pixelIndex = (i mod 8) * 8 + j mod 8
                   in [word_of_int (cr (mcus' ! mcuIndex) ! pixelIndex),
                       word_of_int (cb (mcus' ! mcuIndex) ! pixelIndex),
                       word_of_int (y (mcus' ! mcuIndex) ! pixelIndex)])
                 [0..<unat (width header)])
         @ replicate paddingSize 0)"

text \<open>
  The file that writeBMP leaves: \<open>None\<close> when the output file cannot be opened
  (\<open>outputOpens\<close> is false), where the function prints an error and returns.
\<close>

definition writeBMP :: "Header \<Rightarrow> MCU list \<Rightarrow> bool \<Rightarrow> byte list option" where
  "writeBMP header mcus' outputOpens =
     (if \<not> outputOpens then None
      else
        let paddingSize = (4 - (width header * 3) mod 4) mod 4;
            fileSize = 14 + 12 + height header * width header * 3 + height header * paddingSize
        in Some ([0x42, 0x4D] @ putInt (uint fileSize) @ putInt 0 @ putInt 0x1A @ putInt 12 @
                 putShort (uint (width header)) @ putShort (uint (height header)) @
                 putShort 1 @ putShort 24 @
                 concat (map (pixelRow header mcus') (rev [0..<unat (height header)]))))"

text \<open>
  The exit code of \<open>main\<close> and the output file it leaves. \<open>file\<close>, \<open>headerAllocated\<close>
  and \<open>fresh\<close> are passed on to readJPG and decodeHuffmanData. \<open>stages\<close> stands for
  dequantize, inverseDCT and YCbCrToRGB, which change the MCUs in place and return
  nothing; the last two compute in floating point. \<open>Undefined\<close> is an access outside
  an array or an \<open>int\<close> out of range somewhere on the way.
\<close>

definition main ::
  "nat \<Rightarrow> byte list option \<Rightarrow> bool \<Rightarrow> (nat \<Rightarrow> MCU) option \<Rightarrow> (Header \<Rightarrow> MCU list \<Rightarrow> MCU list)
     \<Rightarrow> bool \<Rightarrow> (int \<times> byte list option) outcome" where
  "main argc file headerAllocated fresh stages outputOpens =
     (if argc \<noteq> 2 then Ok (1, None)
      else
        (case readJPG file headerAllocated of
           OutOfBounds i \<Rightarrow> Undefined
         | Within None \<Rightarrow> Ok (1, None)
         | Within (Some header) \<Rightarrow>
             if valid header = False then Ok (1, None)
             else
               (case decodeHuffmanData header fresh of
                  Undefined \<Rightarrow> Undefined
                | Failed \<Rightarrow> Ok (1, None)
                | Ok mcus' \<Rightarrow> Ok (0, writeBMP header (stages header mcus') outputOpens))))"

text \<open>The exit code alone, when the run has one.\<close>

definition exitCode :: "(int \<times> byte list option) outcome \<Rightarrow> int option" where
  "exitCode r = (case r of Ok (code, written) \<Rightarrow> Some code | _ \<Rightarrow> None)"

definition exampleFile :: "byte list" where
  "exampleFile =
     [0xFF, 0xD8,
      0xFF, 0xDB, 0x00, 0x43, 0x00] @ replicate 64 1 @
     [0xFF, 0xC0, 0x00, 0x0B, 0x08, 0x00, 0x08, 0x00, 0x10, 0x01, 0x01, 0x11, 0x00,
      0xFF, 0xC4, 0x00, 0x15, 0x00, 0x01, 0x01] @ replicate 14 0 @ [0x00, 0x02,
      0xFF, 0xC4, 0x00, 0x16, 0x10, 0x01, 0x01, 0x01] @ replicate 13 0 @ [0xF0, 0x00, 0xA1,
      0xFF, 0xDD, 0x00, 0x04, 0x00, 0x02,
      0xFF, 0xDA, 0x00, 0x08, 0x01, 0x01, 0x00, 0x00, 0x3F, 0x00,
      0xBA, 0xEF,
      0xFF, 0xD9]"


subsection \<open>Lookup misses, and two small Huffman tables\<close>

text \<open>
  The candidate code that getNextSymbol compares with the codes of length \<open>j + 1\<close>: the
  first \<open>j + 1\<close> results of \<open>readBit\<close>, shifted together, and the bit reader after them.
\<close>

fun candidate :: "BitReader \<Rightarrow> nat \<Rightarrow> int \<times> BitReader" where
  "candidate b 0 = readBit b"
| "candidate b (Suc j) =
     (case candidate b j of
        (c, b') \<Rightarrow> (case readBit b' of (bt, b'') \<Rightarrow> (push_bit 1 c OR bt, b'')))"

text \<open>The lookup misses at every code length from 1 to 16.\<close>

definition misses :: "BitReader \<Rightarrow> int list \<Rightarrow> HuffmanTable \<Rightarrow> bool" where
  "misses b codes hTable =
     (\<forall>j \<in> set [0..<16].
        \<forall>k \<in> set [unat (offsets hTable ! j) ..< unat (offsets hTable ! (j + 1))].
          fst (candidate b j) \<noteq> codes ! k)"

text \<open>
  A DC table with the codes \<open>0\<close> for the size 0 and \<open>10\<close> for the size 2, and an AC table
  with the codes
  \<open>0\<close> for 0xF0 (ZRL), \<open>10\<close> for 0x00 (end of block) and \<open>110\<close> for 0xA1 (ten zeros, then
  a coefficient of one bit).
\<close>

definition exampleDC :: HuffmanTable where
  "exampleDC = \<lparr>offsets = [0, 1] @ replicate 15 2,
                 symbols = [0x00, 0x02] @ replicate 160 0, hset = True\<rparr>"

definition exampleAC :: HuffmanTable where
  "exampleAC = \<lparr>offsets = [0, 1, 2] @ replicate 14 3,
                 symbols = [0xF0, 0x00, 0xA1] @ replicate 159 0, hset = True\<rparr>"

text \<open>A DC table with the one code \<open>0\<close>, for the size 31.\<close>

definition wideDC :: HuffmanTable where
  "wideDC = \<lparr>offsets = 0 # replicate 16 1, symbols = 31 # replicate 161 0, hset = True\<rparr>"

definition exampleDCCodes :: "int list" where
  "exampleDCCodes = generateCodes exampleDC (replicate 162 0)"

definition exampleACCodes :: "int list" where
  "exampleACCodes = generateCodes exampleAC (replicate 162 0)"

subsection \<open>The extraction of the entropy-coded data, in the words of the spec\<close>

text \<open>
  Section 4.1 of the spec, "Entropy-coded data extraction": bytes are read until \<open>FF\<close>
  is seen; then \<open>FF 00\<close> appends a literal 0xFF, \<open>FF D0..D7\<close> is discarded, \<open>FF FF\<close>
  ignores one filler byte, \<open>FF D9\<close> stops, and any other \<open>FF xx\<close> is fatal, as is the
  end of the file. Each byte of the payload is kept with its origin: a byte of the
  file that is not 0xFF (\<open>Literal\<close>), or the 0xFF of a pair \<open>FF 00\<close> (\<open>Stuffed\<close>).
\<close>

datatype piece = Literal byte | Stuffed

definition pieceByte :: "piece \<Rightarrow> byte" where
  "pieceByte p = (case p of Literal b \<Rightarrow> b | Stuffed \<Rightarrow> 0xFF)"

fun unstuff :: "byte list \<Rightarrow> piece list option" where
  "unstuff [] = None"
| "unstuff [b] = None"
| "unstuff (b # c # rest) =
     (if b \<noteq> 0xFF then map_option ((#) (Literal b)) (unstuff (c # rest))
      else if c = 0x00 then map_option ((#) Stuffed) (unstuff rest)
      else if 0xD0 \<le> c \<and> c \<le> 0xD7 then unstuff rest
      else if c = 0xFF then unstuff (c # rest)
      else if c = 0xD9 then Some []
      else None)"

text \<open>The byte in \<open>current\<close> and the bytes behind it, as long as the stream has not failed.\<close>

definition pending :: "byte \<Rightarrow> istream \<Rightarrow> byte list" where
  "pending current s = (if failed s then [] else current # remaining s)"

subsection \<open>Predicates of the proofs, and example files\<close>

text \<open>The entries of \<open>codes\<close> at the indices in \<open>S\<close> are not negative.\<close>

definition nonneg_at :: "int list \<Rightarrow> nat set \<Rightarrow> bool" where
  "nonneg_at codes S = (\<forall>k \<in> S. k < length codes \<longrightarrow> 0 \<le> codes ! k)"

text \<open>Once every bit has been read, the bit reader stands at the start of a byte.\<close>

definition reader_ok :: "BitReader \<Rightarrow> bool" where
  "reader_ok b = (length (data b) \<le> nextByte b \<longrightarrow> nextBit b = 0)"

definition atRestart :: "Header \<Rightarrow> nat \<Rightarrow> bool" where
  "atRestart header n = (restartInterval header \<noteq> 0 \<and> n mod unat (restartInterval header) = 0)"

text \<open>The table numbers of the three components are numbers of tables.\<close>

definition tableIDsInRange :: "Header \<Rightarrow> bool" where
  "tableIDsInRange header =
     (length (colorComponents header) = 3 \<and>
      list_all (\<lambda>c. quantizationTableID c \<le> 3 \<and> huffmanDCTableID c \<le> 3 \<and>
                     huffmanACTableID c \<le> 3) (colorComponents header))"

text \<open>
  \<open>exampleFile\<close> is a gray image of 8 rows and 16 columns: a quantization table of
  ones, the two Huffman tables above, a restart interval of 2 and two MCUs, each with
  the DC difference 3 and no AC coefficient. \<open>exampleHeader\<close> is the header that
  readJPG builds from it, \<open>frameHeader\<close> the header after its SOF0 segment alone.
  \<open>twoFramesFile\<close> holds a second SOF0 segment, and \<open>scanIDZeroFile\<close> a scan whose
  component has the ID 0.
\<close>

definition exampleHeader :: Header where
  "exampleHeader =
     emptyHeader
       \<lparr>quantizationTables :=
          (quantizationTables emptyHeader)[0 := \<lparr>table = replicate 64 1, set_flag = True\<rparr>],
        huffmanDCTables := (huffmanDCTables emptyHeader)[0 := exampleDC],
        huffmanACTables := (huffmanACTables emptyHeader)[0 := exampleAC],
        frameType := SOF0, height := 8, width := 16, numComponents := 1,
        restartInterval := 2,
        colorComponents :=
          (colorComponents emptyHeader)[0 := (colorComponents emptyHeader ! 0)\<lparr>used := True\<rparr>],
        huffmanData := [0xBA, 0xEF]\<rparr>"

text \<open>The header of three MCUs on three bytes of data, with a restart interval of 1.\<close>

definition restartHeader :: Header where
  "restartHeader = exampleHeader\<lparr>restartInterval := 1, huffmanData := [0xB2, 0xBB, 0xBB]\<rparr>"

definition zeroMCU :: MCU where
  "zeroMCU = \<lparr>y = replicate 64 0, cb = replicate 64 0, cr = replicate 64 0\<rparr>"

definition exampleBlocks :: "MCU list" where
  "exampleBlocks = [zeroMCU\<lparr>y := (replicate 64 0)[0 := 3]\<rparr>, zeroMCU\<lparr>y := (replicate 64 0)[0 := 6]\<rparr>]"

definition frameHeader :: Header where
  "frameHeader =
     emptyHeader
       \<lparr>frameType := SOF0, height := 8, width := 16, numComponents := 1,
        colorComponents :=
          (colorComponents emptyHeader)[0 := (colorComponents emptyHeader ! 0)\<lparr>used := True\<rparr>]\<rparr>"

definition twoFramesFile :: "byte list" where
  "twoFramesFile =
     [0xFF, 0xD8,
      0xFF, 0xC0, 0x00, 0x0B, 0x08, 0x00, 0x08, 0x00, 0x10, 0x01, 0x01, 0x11, 0x00,
      0xFF, 0xC0, 0x00, 0x0B, 0x08, 0x00, 0x04, 0x00, 0x04, 0x01, 0x02, 0x11, 0x00,
      0xFF, 0xD9]"

definition scanIDZeroFile :: "byte list" where
  "scanIDZeroFile =
     [0xFF, 0xD8,
      0xFF, 0xC0, 0x00, 0x0B, 0x08, 0x00, 0x08, 0x00, 0x10, 0x01, 0x01, 0x11, 0x00,
      0xFF, 0xDA, 0x00, 0x08, 0x01, 0x00, 0x00, 0x00, 0x3F, 0x00,
      0xFF, 0xD9]"

section \<open>Sign extension: range and round trip\<close>

lemma bitSize_unique: "0 < L \<Longrightarrow> 2 ^ (L - 1) \<le> n \<Longrightarrow> n < 2 ^ L \<Longrightarrow> bitSize n = L"
proof (induction L arbitrary: n)
  case 0
  then show ?case by simp
next
  case (Suc L)
  show ?case
  proof (cases "L = 0")
    case True
    with Suc.prems have "n = 1" by simp
    then show ?thesis using True by simp
  next
    case False
    from Suc.prems False have lo: "2 ^ (L - 1) \<le> n div 2"
      by (cases L) auto
    from Suc.prems have hi: "n div 2 < 2 ^ L" by auto
    from Suc.prems have "n \<noteq> 0" by auto
    moreover have "bitSize (n div 2) = L"
      using Suc.IH [OF _ lo hi] False by simp
    ultimately show ?thesis by (subst bitSize.simps) simp
  qed
qed

lemma extendDC_low:
  assumes "0 < L" "0 \<le> V" "V < 2 ^ (L - 1)"
  shows "extendDC L V = V - (2 ^ L - 1)"
  using assms by (simp add: extendDC_def push_bit_eq_mult)

lemma extendDC_high:
  assumes "\<not> V < 2 ^ (L - 1)"
  shows "extendDC L V = V"
  using assms by (simp add: extendDC_def push_bit_eq_mult)

lemma two_power_split: "0 < L \<Longrightarrow> (2::int) ^ L = 2 * 2 ^ (L - 1)"
  by (cases L) simp_all

lemma encode_negative:
  assumes L: "0 < L" and V: "0 \<le> V" "V < 2 ^ (L - 1)"
  shows "encode (V - (2 ^ L - 1)) = (L, V)"
proof -
  let ?v = "V - (2 ^ L - 1)"
  have split: "(2::int) ^ L = 2 * 2 ^ (L - 1)" using L by (rule two_power_split)
  have neg: "?v < 0" using V split by linarith
  have lo: "(2::int) ^ (L - 1) \<le> \<bar>?v\<bar>" using V split by linarith
  have hi: "\<bar>?v\<bar> < (2::int) ^ L" using V split by linarith
  have "(2::nat) ^ (L - 1) \<le> nat \<bar>?v\<bar>"
    using lo by (metis nat_mono nat_numeral nat_power_eq zero_le_numeral)
  moreover have "nat \<bar>?v\<bar> < (2::nat) ^ L"
    using hi by (metis abs_ge_zero nat_less_iff of_nat_numeral of_nat_power)
  ultimately have "bitSize (nat \<bar>?v\<bar>) = L" using L by (intro bitSize_unique)
  then show ?thesis using neg by (simp add: encode_def)
qed

lemma encode_positive:
  assumes L: "0 < L" and V: "2 ^ (L - 1) \<le> V" "V < 2 ^ L"
  shows "encode V = (L, V)"
proof -
  have "(0::int) < 2 ^ (L - 1)" by simp
  with V(1) have pos: "0 < V" by linarith
  have "(2::nat) ^ (L - 1) \<le> nat \<bar>V\<bar>"
    using V(1) pos by (metis abs_of_pos nat_mono nat_numeral nat_power_eq zero_le_numeral)
  moreover have "nat \<bar>V\<bar> < (2::nat) ^ L"
    using V(2) by (metis abs_ge_zero abs_of_pos pos nat_less_iff of_nat_numeral of_nat_power)
  ultimately have "bitSize (nat \<bar>V\<bar>) = L" using L by (intro bitSize_unique)
  then show ?thesis using pos by (simp add: encode_def)
qed

lemma extendAC_eq_DC: "0 < L \<Longrightarrow> extendAC L V = extendDC L V"
  by (simp add: extendAC_def extendDC_def)

text \<open>
  Claim C7. For every size \<open>L\<close> from 0 to 11 and every \<open>V\<close> with \<open>0 \<le> V < 2^L\<close>, the
  sign extension of decodeMCUComponent gives 0 when \<open>L = 0\<close> and otherwise a value in
  \<open>[-(2^L - 1), -2^(L-1) + 1]\<close> or in \<open>[2^(L-1), 2^L - 1]\<close>; encoding the value gives
  \<open>(L, V)\<close> back; and for a size that is not 0 the AC path extends as the DC path does.
\<close>

theorem sign_extension_round_trip:
  assumes "L \<le> 11" and "0 \<le> V" and "V < 2 ^ L"
  shows "(L = 0 \<longrightarrow> extendDC L V = 0) \<and>
         (L \<noteq> 0 \<longrightarrow>
            (- (2 ^ L - 1) \<le> extendDC L V \<and> extendDC L V \<le> - (2 ^ (L - 1)) + 1) \<or>
            (2 ^ (L - 1) \<le> extendDC L V \<and> extendDC L V \<le> 2 ^ L - 1)) \<and>
         encode (extendDC L V) = (L, V) \<and>
         (L \<noteq> 0 \<longrightarrow> extendAC L V = extendDC L V)"
proof (cases "L = 0")
  case True
  with assms have "V = 0" by simp
  with True show ?thesis by (simp add: extendDC_def encode_def)
next
  case False
  then have L: "0 < L" by simp
  have split: "(2::int) ^ L = 2 * 2 ^ (L - 1)" using L by (rule two_power_split)
  show ?thesis
  proof (cases "V < 2 ^ (L - 1)")
    case True
    have e: "extendDC L V = V - (2 ^ L - 1)"
      using L assms(2) True by (rule extendDC_low)
    have "- (2 ^ L - 1) \<le> V - (2 ^ L - 1)" using assms(2) by simp
    moreover have "V - (2 ^ L - 1) \<le> - (2 ^ (L - 1)) + 1" using True split by linarith
    moreover have "encode (V - (2 ^ L - 1)) = (L, V)"
      using L assms(2) True by (rule encode_negative)
    ultimately show ?thesis using e L by (simp add: extendAC_eq_DC)
  next
    case False
    have e: "extendDC L V = V" using False by (rule extendDC_high)
    have "2 ^ (L - 1) \<le> V" using False by simp
    moreover have "V \<le> 2 ^ L - 1" using assms(3) by simp
    moreover have "encode V = (L, V)"
      using L False assms(3) by (intro encode_positive) simp_all
    ultimately show ?thesis using e L by (simp add: extendAC_eq_DC)
  qed
qed

theorem sign_extension_round_trip_witness:
  "(3::nat) \<le> 11 \<and> extendDC 3 2 = - 5 \<and> extendAC 3 2 = - 5 \<and> encode (- 5) = (3, 2)"
proof -
  have v: "extendDC 3 2 = - 5" by (simp add: extendDC_def)
  have "encode (extendDC 3 2) = (3, 2) \<and> extendAC 3 2 = extendDC 3 2"
    using sign_extension_round_trip [of 3 2] by simp
  then show ?thesis using v by simp
qed

section \<open>The block decoder\<close>

subsection \<open>The zigzag table is a permutation\<close>

lemma zigZagMap_length: "length zigZagMap = 64"
  by (simp add: zigZagMap_def)

lemma zigZagMap_distinct: "distinct zigZagMap"
  by (simp add: zigZagMap_def)

lemma zigZagMap_bound:
  assumes "i < 64"
  shows "zigZagMap ! i < 64"
proof -
  have "\<forall>x \<in> set zigZagMap. x < 64" by (simp add: zigZagMap_def)
  moreover have "zigZagMap ! i \<in> set zigZagMap"
    using assms by (simp add: zigZagMap_length)
  ultimately show ?thesis by blast
qed

lemma zigZagMap_inj: "k < 64 \<Longrightarrow> i < 64 \<Longrightarrow> (zigZagMap ! k = zigZagMap ! i) = (k = i)"
  using zigZagMap_distinct by (simp add: nth_eq_iff_index_eq zigZagMap_length)

subsection \<open>A run of zeros\<close>

lemma zeroRun_spec:
  assumes "length component = 64" and "i + n \<le> 64"
  shows "fst (zeroRun n i component) = i + n \<and>
         length (snd (zeroRun n i component)) = 64 \<and>
         (\<forall>k<64. snd (zeroRun n i component) ! (zigZagMap ! k) =
            (if i \<le> k \<and> k < i + n then 0 else component ! (zigZagMap ! k)))"
  using assms
proof (induction n arbitrary: i component)
  case 0
  then show ?case by simp
next
  case (Suc n)
  let ?c = "component[zigZagMap ! i := 0]"
  from Suc.prems have i: "i < 64" by simp
  have len: "length ?c = 64" using Suc.prems by simp
  have ih: "fst (zeroRun n (Suc i) ?c) = Suc i + n \<and>
         length (snd (zeroRun n (Suc i) ?c)) = 64 \<and>
         (\<forall>k<64. snd (zeroRun n (Suc i) ?c) ! (zigZagMap ! k) =
            (if Suc i \<le> k \<and> k < Suc i + n then 0 else ?c ! (zigZagMap ! k)))"
    using Suc.IH [OF len] Suc.prems(2) by simp
  have upd: "\<And>k. k < 64 \<Longrightarrow>
      ?c ! (zigZagMap ! k) = (if k = i then 0 else component ! (zigZagMap ! k))"
    using i Suc.prems(1) by (simp add: nth_list_update zigZagMap_bound zigZagMap_inj)
  have unfold: "zeroRun (Suc n) i component = zeroRun n (Suc i) ?c" using i by simp
  show ?case
    unfolding unfold using ih upd by auto
qed

lemma uint_byte_not_minus_one: "uint (w :: byte) \<noteq> - 1"
  using uint_nonnegative [of w] by linarith

lemma zrl_low_nibble: "unat ((0xF0 :: byte) AND 0x0F) = 0"
  by simp

lemma zrl_high_nibble: "unat (drop_bit 4 (0xF0 :: byte)) = 15"
  by simp

text \<open>
  What a pass that reads ZRL stores, whatever the block holds: the run loop is left
  after 15 stores of 0, at the positions \<open>zigZagMap[i]\<close> to \<open>zigZagMap[i + 14]\<close>; no
  coefficient is stored, every other entry of the block is as before, and the \<open>++i\<close> of
  the outer loop steps over the position \<open>i + 15\<close>.
\<close>

lemma acStep_zrl:
  assumes sym: "getNextSymbol b acCodes acTable = (0xF0, b1)"
    and i: "i + 15 < 64"
    and len: "length component = 64"
  shows "\<exists>component'.
           acStep acCodes acTable i b component = Next (i + 15) b1 component' \<and>
           (\<forall>k<64. component' ! (zigZagMap ! k) =
              (if i \<le> k \<and> k < i + 15 then 0 else component ! (zigZagMap ! k))) \<and>
           acLoop acCodes acTable i b component = acLoop acCodes acTable (i + 16) b1 component'"
proof -
  obtain i' c' where z: "zeroRun 15 i component = (i', c')"
    by (cases "zeroRun 15 i component")
  have spec: "i' = i + 15 \<and> (\<forall>k<64. c' ! (zigZagMap ! k) =
              (if i \<le> k \<and> k < i + 15 then 0 else component ! (zigZagMap ! k)))"
    using zeroRun_spec [OF len, of i 15] i z by simp
  have step: "acStep acCodes acTable i b component = Next (i + 15) b1 c'"
    using sym z spec
    by (simp add: acStep_def uint_byte_not_minus_one zrl_low_nibble zrl_high_nibble)
  have loop: "acLoop acCodes acTable i b component = acLoop acCodes acTable (i + 16) b1 c'"
    using i step by (subst acLoop.simps) (simp add: add.commute)
  show ?thesis using step spec loop by blast
qed








text \<open>
  The DC sizes above 30. With a DC table whose one code \<open>0\<close> stands for the size 31:
  a value with a leading 1 bit is stored as it is, the end of the data makes the
  function return \<open>false\<close>, and a value with a leading 0 bit overflows the \<open>int\<close>.
\<close>

lemma wide_dc_size:
  "decodeMCUComponent \<lparr>nextByte = 0, nextBit = 0, data = [0x40, 0, 0, 0, 0]\<rparr> (replicate 64 0) 0
       (generateCodes wideDC (replicate 162 0)) wideDC exampleACCodes exampleAC
     = Ok (\<lparr>nextByte = 4, nextBit = 4, data = [0x40, 0, 0, 0, 0]\<rparr>,
           (replicate 64 0)[0 := 1073741824]) \<and>
   decodeMCUComponent \<lparr>nextByte = 0, nextBit = 0, data = [0x40]\<rparr> (replicate 64 0) 0
       (generateCodes wideDC (replicate 162 0)) wideDC exampleACCodes exampleAC
     = Failed \<and>
   decodeMCUComponent \<lparr>nextByte = 0, nextBit = 0, data = [0x20, 0, 0, 0, 0]\<rparr> (replicate 64 0) 0
       (generateCodes wideDC (replicate 162 0)) wideDC exampleACCodes exampleAC
     = Undefined"
  by code_simp

text \<open>Up to the size 30, and on the bits that \<open>readBits\<close> returns, the value is \<open>extendDC\<close>.\<close>

lemma dcCoefficient_extendDC: "len \<le> 30 \<Longrightarrow> dcCoefficient len coeff = Some (extendDC len coeff)"
  by (simp add: dcCoefficient_def)

lemma zeroRun_stops:
  "i \<le> 64 \<Longrightarrow> 64 \<le> i + n \<Longrightarrow> fst (zeroRun n i component) = 64"
  by (induction n arbitrary: i component) auto

lemma low_nibble_not_zero: "(symbol :: byte) AND 0x0F \<noteq> 0 \<Longrightarrow> symbol \<noteq> 0"
  by auto

text \<open>
  The part of claim C4 that the code keeps: a run that reaches position 64 before a
  coefficient of a size that is not 0 makes the pass, and the loop, return \<open>false\<close>.
\<close>

lemma overrun_before_coefficient_fails:
  assumes sym: "getNextSymbol b acCodes acTable = (symbol, b1)"
    and size: "symbol AND 0x0F \<noteq> 0"
    and i: "i < 64" "64 \<le> i + unat (drop_bit 4 symbol)"
  shows "acStep acCodes acTable i b component = Return Failed \<and>
         acLoop acCodes acTable i b component = Failed"
proof -
  obtain i' c' where z: "zeroRun (unat (drop_bit 4 symbol)) i component = (i', c')"
    by (cases "zeroRun (unat (drop_bit 4 symbol)) i component")
  have "i' = 64"
    using zeroRun_stops [of i "unat (drop_bit 4 symbol)" component] i z by simp
  moreover have "unat (symbol AND 0x0F) \<noteq> 0" using size by (simp add: unat_eq_0)
  ultimately have step: "acStep acCodes acTable i b component = Return Failed"
    using sym z low_nibble_not_zero [OF size]
    by (simp add: acStep_def uint_byte_not_minus_one Let_def)
  then show ?thesis using i(1) by (subst acLoop.simps) simp
qed

text \<open>
  Claim C4 fails on the code. The data bytes 0x0D, 0x00 hold the bits \<open>0\<close> (DC size 0),
  three times \<open>0\<close> (ZRL at the positions 1, 17 and 33), \<open>110\<close> and \<open>1\<close> (0xA1 at position
  49: ten zeros and the coefficient 1 at position 59), and \<open>0\<close>: ZRL at position 60. Its
  run of 16 zeros would end at position 75; the code writes the four zeros that fit and
  returns \<open>true\<close>.
\<close>

theorem zero_run_overrun_accepted:
  "getNextSymbol \<lparr>nextByte = 1, nextBit = 0, data = [0x0D, 0x00]\<rparr> exampleACCodes exampleAC
     = (0xF0, \<lparr>nextByte = 1, nextBit = 1, data = [0x0D, 0x00]\<rparr>) \<and>
   acLoop exampleACCodes exampleAC 60 \<lparr>nextByte = 1, nextBit = 0, data = [0x0D, 0x00]\<rparr>
       ((replicate 64 0)[zigZagMap ! 59 := 1])
     = Ok (\<lparr>nextByte = 1, nextBit = 1, data = [0x0D, 0x00]\<rparr>, (replicate 64 0)[zigZagMap ! 59 := 1]) \<and>
   decodeMCUComponent \<lparr>nextByte = 0, nextBit = 0, data = [0x0D, 0x00]\<rparr> (replicate 64 0) 0
       exampleDCCodes exampleDC exampleACCodes exampleAC
     = Ok (\<lparr>nextByte = 1, nextBit = 1, data = [0x0D, 0x00]\<rparr>, (replicate 64 0)[zigZagMap ! 59 := 1])"
  by code_simp

subsection \<open>A lookup that misses\<close>

lemma find_None_iff_set: "find P xs = None \<longleftrightarrow> (\<forall>x \<in> set xs. \<not> P x)"
  by (induction xs) auto

lemma symbolLoop_misses:
  assumes "misses b codes hTable" and "j \<le> 16"
  shows "symbolLoop codes hTable j (fst (candidate b j)) (snd (candidate b j))
           = (- 1, snd (candidate b 16))"
  using assms(2)
proof (induction "16 - j" arbitrary: j)
  case 0
  then have "j = 16" by simp
  then show ?case by (simp add: symbolLoop.simps [of _ _ 16])
next
  case (Suc n)
  then have j: "j < 16" by simp
  have none: "find (\<lambda>k. fst (candidate b j) = codes ! k)
                [unat (offsets hTable ! j) ..< unat (offsets hTable ! (j + 1))] = None"
    using assms(1) j unfolding misses_def find_None_iff_set by simp
  obtain bt b' where r: "readBit (snd (candidate b j)) = (bt, b')"
    by (cases "readBit (snd (candidate b j))")
  have next_c: "candidate b (Suc j) = (push_bit 1 (fst (candidate b j)) OR bt, b')"
    using r by (cases "candidate b j") simp
  have step: "symbolLoop codes hTable (Suc j) (fst (candidate b (Suc j))) (snd (candidate b (Suc j)))
          = (- 1, snd (candidate b 16))"
    using Suc.hyps(1) [of "Suc j"] Suc.hyps(2) j by simp
  have "symbolLoop codes hTable j (fst (candidate b j)) (snd (candidate b j))
          = symbolLoop codes hTable (j + 1) (push_bit 1 (fst (candidate b j)) OR bt) b'"
    using j none r by (subst symbolLoop.simps) simp
  also have "\<dots> = (- 1, snd (candidate b 16))"
    using step unfolding next_c by simp
  finally show ?case .
qed

lemma getNextSymbol_misses:
  assumes "misses b codes hTable"
  shows "getNextSymbol b codes hTable = (- 1, snd (candidate b 16))"
proof -
  obtain bt b' where r: "readBit b = (bt, b')" by (cases "readBit b")
  then show ?thesis
    using symbolLoop_misses [OF assms, of 0] by (simp add: getNextSymbol_def)
qed

lemma acStep_sentinel:
  assumes "getNextSymbol b acCodes acTable = (- 1, b1)"
  shows "acStep acCodes acTable i b component = Return Failed"
proof -
  have "unat ((- 1 :: byte) AND 0x0F) = 15" by simp
  then show ?thesis
    using assms by (simp add: acStep_def uint_byte_not_minus_one Let_def split: prod.splits)
qed

lemma acLoop_sentinel:
  assumes "getNextSymbol b acCodes acTable = (- 1, b1)" and "i < 64"
  shows "acLoop acCodes acTable i b component = Failed"
  using assms(2) acStep_sentinel [OF assms(1)] by (subst acLoop.simps) simp

lemma decodeMCUComponent_sentinel:
  assumes "getNextSymbol b dcCodes dcTable = (- 1, b1)"
  shows "decodeMCUComponent b component previousDC dcCodes dcTable acCodes acTable = Failed"
  using assms by (simp add: decodeMCUComponent_def)

text \<open>Once every bit has been read, each candidate code is \<open>-1\<close>.\<close>

lemma candidate_eof:
  assumes "length (data b) \<le> nextByte b"
  shows "candidate b j = (- 1, b)"
  using assms by (induction j) (simp_all add: readBit_def)

lemma assignCodes_nonneg:
  assumes "0 \<le> code" and "nonneg_at codes S"
  shows "0 \<le> fst (assignCodes ks code codes) \<and>
         length (snd (assignCodes ks code codes)) = length codes \<and>
         nonneg_at (snd (assignCodes ks code codes)) (S \<union> set ks)"
  using assms
proof (induction ks arbitrary: code codes S)
  case Nil
  then show ?case by simp
next
  case (Cons k ks)
  have step: "nonneg_at (codes[k := code]) (insert k S)"
    unfolding nonneg_at_def
  proof (intro ballI impI)
    fix m
    assume m: "m \<in> insert k S" "m < length (codes[k := code])"
    show "0 \<le> codes[k := code] ! m"
    proof (cases "m = k")
      case True
      then show ?thesis using m Cons.prems(1) by simp
    next
      case False
      then show ?thesis using m Cons.prems(2) by (simp add: nonneg_at_def)
    qed
  qed
  have "0 \<le> code + 1" using Cons.prems(1) by simp
  from Cons.IH [OF this step] show ?case by simp
qed

lemma generateLoop_nonneg:
  assumes "0 \<le> code" and "nonneg_at codes S"
  shows "length (generateLoop hTable js code codes) = length codes \<and>
         nonneg_at (generateLoop hTable js code codes)
           (S \<union> (\<Union>j \<in> set js. {unat (offsets hTable ! j) ..< unat (offsets hTable ! (j + 1))}))"
  using assms
proof (induction js arbitrary: code codes S)
  case Nil
  then show ?case by simp
next
  case (Cons j js)
  let ?ks = "[unat (offsets hTable ! j) ..< unat (offsets hTable ! (j + 1))]"
  obtain code' codes' where a: "assignCodes ?ks code codes = (code', codes')"
    by (cases "assignCodes ?ks code codes")
  have f: "0 \<le> code' \<and> length codes' = length codes \<and> nonneg_at codes' (S \<union> set ?ks)"
    using assignCodes_nonneg [OF Cons.prems, of ?ks] a by simp
  then have "0 \<le> push_bit 1 code'" by simp
  from Cons.IH [OF this, of codes' "S \<union> set ?ks"] f a
  show ?case by (simp add: Un_assoc)
qed

lemma generateCodes_nonneg:
  assumes "j < 16" and "k \<in> {unat (offsets hTable ! j) ..< unat (offsets hTable ! (j + 1))}"
    and "k < length codes"
  shows "0 \<le> generateCodes hTable codes ! k"
proof -
  have "nonneg_at codes {}" by (simp add: nonneg_at_def)
  then have g: "length (generateCodes hTable codes) = length codes \<and>
     nonneg_at (generateCodes hTable codes)
       (\<Union>j \<in> set [0..<16]. {unat (offsets hTable ! j) ..< unat (offsets hTable ! (j + 1))})"
    using generateLoop_nonneg [of 0 codes "{}" hTable "[0..<16]"]
    by (simp add: generateCodes_def)
  have "k \<in> (\<Union>j \<in> set [0..<16]. {unat (offsets hTable ! j) ..< unat (offsets hTable ! (j + 1))})"
    using assms(1,2) by auto
  then show ?thesis using g assms(3) unfolding nonneg_at_def by auto
qed

text \<open>
  At the end of the data every lookup misses, for the codes that generateCodes has
  written for a table whose offsets stay within the array of the codes.
\<close>

lemma eof_misses:
  assumes eof: "length (data b) \<le> nextByte b"
    and within: "\<forall>j \<le> 16. unat (offsets hTable ! j) \<le> length codes"
  shows "misses b (generateCodes hTable codes) hTable"
  unfolding misses_def
proof (intro ballI)
  fix j k
  assume j: "j \<in> set [0..<16]"
    and k: "k \<in> set [unat (offsets hTable ! j) ..< unat (offsets hTable ! (j + 1))]"
  have j16: "j < 16" using j by simp
  have "k < unat (offsets hTable ! (j + 1))" using k by simp
  moreover have "unat (offsets hTable ! (j + 1)) \<le> length codes" using within j16 by simp
  ultimately have "k < length codes" by simp
  then have "0 \<le> generateCodes hTable codes ! k"
    using generateCodes_nonneg [OF j16, of k hTable codes] k by simp
  then show "fst (candidate b j) \<noteq> generateCodes hTable codes ! k"
    using candidate_eof [OF eof, of j] by simp
qed

text \<open>
  Claim C8. When the lookup misses at every code length from 1 to 16, getNextSymbol
  returns the byte \<open>-1\<close>, decodeMCUComponent returns \<open>false\<close> when this is the read of
  the DC symbol, and the loop over the AC coefficients returns \<open>false\<close> when this is the
  read of an AC symbol, at any position \<open>i < 64\<close> and for any block. A bit reader that
  has reached the end of the data is such a case, for the codes that generateCodes
  writes for a table whose offsets stay within the array of the codes.
\<close>

theorem lookup_miss_fails:
  "(misses b codes hTable \<and> i < 64 \<longrightarrow>
      fst (getNextSymbol b codes hTable) = - 1 \<and>
      decodeMCUComponent b component previousDC codes hTable acCodes acTable = Failed \<and>
      acStep codes hTable i b component = Return Failed \<and>
      acLoop codes hTable i b component = Failed) \<and>
   (length (data b) \<le> nextByte b \<and> (\<forall>j \<le> 16. unat (offsets hTable ! j) \<le> length codes0) \<longrightarrow>
      misses b (generateCodes hTable codes0) hTable)"
proof (intro conjI impI)
  assume m: "misses b codes hTable \<and> i < 64"
  then have s: "getNextSymbol b codes hTable = (- 1, snd (candidate b 16))"
    by (simp add: getNextSymbol_misses)
  show "fst (getNextSymbol b codes hTable) = - 1" using s by simp
  show "decodeMCUComponent b component previousDC codes hTable acCodes acTable = Failed"
    using s by (rule decodeMCUComponent_sentinel)
  show "acStep codes hTable i b component = Return Failed"
    using s by (rule acStep_sentinel)
  show "acLoop codes hTable i b component = Failed"
    using s m by (simp add: acLoop_sentinel)
next
  assume "length (data b) \<le> nextByte b \<and> (\<forall>j \<le> 16. unat (offsets hTable ! j) \<le> length codes0)"
  then show "misses b (generateCodes hTable codes0) hTable"
    by (simp add: eof_misses)
qed

text \<open>
  Two bytes of ones match no code of the DC table; the seventeenth bit is not there. A
  bit reader at the end of the data misses as well.
\<close>

theorem lookup_miss_fails_witness:
  "misses \<lparr>nextByte = 0, nextBit = 0, data = [0xFF, 0xFF]\<rparr> exampleDCCodes exampleDC \<and>
   (1::nat) < 64 \<and>
   fst (getNextSymbol \<lparr>nextByte = 0, nextBit = 0, data = [0xFF, 0xFF]\<rparr> exampleDCCodes exampleDC)
     = - 1 \<and>
   decodeMCUComponent \<lparr>nextByte = 0, nextBit = 0, data = [0xFF, 0xFF]\<rparr> (replicate 64 0) 0
     exampleDCCodes exampleDC exampleACCodes exampleAC = Failed \<and>
   acLoop exampleDCCodes exampleDC 1 \<lparr>nextByte = 0, nextBit = 0, data = [0xFF, 0xFF]\<rparr>
     (replicate 64 0) = Failed \<and>
   length (data \<lparr>nextByte = 1, nextBit = 0, data = [0x20]\<rparr>) \<le> 1 \<and>
   misses \<lparr>nextByte = 1, nextBit = 0, data = [0x20]\<rparr> exampleACCodes exampleAC \<and>
   acLoop exampleACCodes exampleAC 1 \<lparr>nextByte = 1, nextBit = 0, data = [0x20]\<rparr>
     (replicate 64 0) = Failed"
proof -
  let ?b = "\<lparr>nextByte = 0, nextBit = 0, data = [0xFF, 0xFF :: byte]\<rparr>"
  let ?e = "\<lparr>nextByte = 1, nextBit = 0, data = [0x20 :: byte]\<rparr>"
  have m: "misses ?b exampleDCCodes exampleDC"
    by code_simp
  have eof: "length (data ?e) \<le> nextByte ?e" by simp
  have within: "\<forall>j \<le> 16. unat (offsets exampleAC ! j) \<le> length (replicate 162 (0::int))"
    by (simp add: exampleAC_def nth_append nth_Cons' All_less_Suc2 le_Suc_eq)
  have e: "misses ?e exampleACCodes exampleAC"
    using lookup_miss_fails [where b = ?e and hTable = exampleAC and codes0 = "replicate 162 0"]
      eof within
    unfolding exampleACCodes_def by blast
  have "fst (getNextSymbol ?b exampleDCCodes exampleDC) = - 1 \<and>
        decodeMCUComponent ?b (replicate 64 0) 0 exampleDCCodes exampleDC exampleACCodes exampleAC
          = Failed \<and>
        acLoop exampleDCCodes exampleDC 1 ?b (replicate 64 0) = Failed"
    using lookup_miss_fails [where b = ?b and codes = exampleDCCodes and hTable = exampleDC
        and i = 1 and component = "replicate 64 0" and previousDC = 0
        and acCodes = exampleACCodes and acTable = exampleAC] m
    by simp
  moreover have "acLoop exampleACCodes exampleAC 1 ?e (replicate 64 0) = Failed"
    using lookup_miss_fails [where b = ?e and codes = exampleACCodes and hTable = exampleAC
        and i = 1 and component = "replicate 64 0"] e
    by simp
  ultimately show ?thesis using m e by simp
qed

section \<open>The entropy-coded data\<close>

lemma getByte_pending:
  assumes "\<not> failed s" and "getByte s = (c, s1)"
  shows "pending c s1 = remaining s"
  using assms by (auto simp: pending_def getByte_def get_def split: list.splits)

lemma getByte_pending_any:
  assumes "getByte s = (c, s1)"
  shows "pending c s1 = (if failed s then [] else remaining s)"
  using assms by (auto simp: pending_def getByte_def get_def split: list.splits if_splits)

lemma unstuff_literals:
  "unstuff bs = Some ps \<Longrightarrow> \<forall>p \<in> set ps. pieceByte p = 0xFF \<longrightarrow> p = Stuffed"
proof (induction bs arbitrary: ps rule: unstuff.induct)
  case 1
  then show ?case by simp
next
  case (2 b)
  then show ?case by simp
next
  case (3 b c rest)
  then show ?case
    by (auto simp: pieceByte_def split: if_splits piece.splits)
qed

lemma rst_range:
  assumes "RST0 \<le> c \<and> c \<le> RST7"
  shows "c \<noteq> EOI \<and> c \<noteq> 0 \<and> c \<noteq> 0xFF \<and> 0xD0 \<le> c \<and> c \<le> 0xD7"
  using assms by (auto simp: marker_defs word_le_nat_alt)

lemma scanLoop_unstuff:
  "(fst (scanLoop current s payload) \<longleftrightarrow> unstuff (pending current s) \<noteq> None) \<and>
   (\<forall>ps. unstuff (pending current s) = Some ps \<longrightarrow>
      snd (snd (scanLoop current s payload)) = payload @ map pieceByte ps)"
proof (induction current s payload rule: scanLoop.induct)
  case (1 current s payload)
  show ?case
  proof (cases "failed s")
    case True
    then show ?thesis by (subst (1 2) scanLoop.simps) (simp add: pending_def)
  next
    case False
    obtain current1 s1 where g1: "getByte s = (current1, s1)" by (cases "getByte s")
    obtain current2 s2 where g2: "getByte s1 = (current2, s2)" by (cases "getByte s1")
    have p0: "pending current s = current # pending current1 s1"
      using False getByte_pending [OF False g1] by (simp add: pending_def)
    have p2: "pending current2 s2 = (if failed s1 then [] else remaining s1)"
      using g2 by (rule getByte_pending_any)
    have eof1: "failed s1 \<Longrightarrow> current1 = 0xFF"
      using False g1 by (auto simp: getByte_def get_def split: list.splits)
    have p1: "\<not> failed s1 \<Longrightarrow> pending current1 s1 = current1 # remaining s1"
      by (simp add: pending_def)
    have p1f: "failed s1 \<Longrightarrow> pending current1 s1 = []"
      by (simp add: pending_def)
    show ?thesis
    proof (cases "current = 0xFF")
      case lit: False
      have eq: "scanLoop current s payload = scanLoop current1 s1 (payload @ [current])"
        using False g1 lit by (subst scanLoop.simps) (simp add: Let_def)
      have ih: "(fst (scanLoop current1 s1 (payload @ [current])) \<longleftrightarrow>
                   unstuff (pending current1 s1) \<noteq> None) \<and>
                (\<forall>ps. unstuff (pending current1 s1) = Some ps \<longrightarrow>
                   snd (snd (scanLoop current1 s1 (payload @ [current])))
                     = (payload @ [current]) @ map pieceByte ps)"
        using "1.IH"(4) [OF False refl g1 [symmetric] lit] by simp
      have u: "unstuff (pending current s)
                 = map_option ((#) (Literal current)) (unstuff (pending current1 s1))"
        unfolding p0 using lit by (cases "pending current1 s1") simp_all
      show ?thesis unfolding eq u using ih by (auto simp: pieceByte_def)
    next
      case ff: True
      show ?thesis
      proof (cases "failed s1")
        case True
        have eq: "scanLoop current s payload = scanLoop current1 s1 payload"
          using False g1 ff eof1 [OF True]
          by (subst scanLoop.simps) (simp add: Let_def marker_defs)
        have "fst (scanLoop current1 s1 payload) = False"
          using True by (subst scanLoop.simps) simp
        moreover have "unstuff (pending current s) = None"
          unfolding p0 p1f [OF True] by simp
        ultimately show ?thesis unfolding eq by simp
      next
        case ok1: False
        have p0': "pending current s = 0xFF # current1 # remaining s1"
          using p0 p1 [OF ok1] ff by simp
        consider (eoi) "current1 = EOI" | (zero) "current1 = 0x00"
          | (rst) "RST0 \<le> current1 \<and> current1 \<le> RST7"
          | (fill) "current1 = 0xFF"
          | (other) "current1 \<noteq> EOI" "current1 \<noteq> 0x00"
                    "\<not> (RST0 \<le> current1 \<and> current1 \<le> RST7)" "current1 \<noteq> 0xFF"
          by blast
        then show ?thesis
        proof cases
          case eoi
          have "scanLoop current s payload = (True, s1, payload)"
            using False g1 ff eoi by (subst scanLoop.simps) (simp add: Let_def)
          moreover have "unstuff (pending current s) = Some []"
            unfolding p0' using eoi by (simp add: marker_defs)
          ultimately show ?thesis by simp
        next
          case zero
          have eq: "scanLoop current s payload = scanLoop current2 s2 (payload @ [0xFF])"
            using False g1 g2 ff zero
            by (subst scanLoop.simps) (simp add: Let_def marker_defs)
          have ih: "(fst (scanLoop current2 s2 (payload @ [0xFF])) \<longleftrightarrow>
                       unstuff (pending current2 s2) \<noteq> None) \<and>
                    (\<forall>ps. unstuff (pending current2 s2) = Some ps \<longrightarrow>
                       snd (snd (scanLoop current2 s2 (payload @ [0xFF])))
                         = (payload @ [0xFF]) @ map pieceByte ps)"
            using "1.IH"(1) [OF False refl g1 [symmetric] ff _ zero g2 [symmetric]] zero ff
            by (simp add: marker_defs)
          have u: "unstuff (pending current s)
                     = map_option ((#) Stuffed) (unstuff (pending current2 s2))"
            unfolding p0' p2 using zero ok1 by simp
          show ?thesis unfolding eq u using ih by (auto simp: pieceByte_def)
        next
          case rst
          note r = rst_range [OF rst]
          have eq: "scanLoop current s payload = scanLoop current2 s2 payload"
            using False g1 g2 ff rst r
            by (subst scanLoop.simps) (simp add: Let_def)
          have ih: "(fst (scanLoop current2 s2 payload) \<longleftrightarrow>
                       unstuff (pending current2 s2) \<noteq> None) \<and>
                    (\<forall>ps. unstuff (pending current2 s2) = Some ps \<longrightarrow>
                       snd (snd (scanLoop current2 s2 payload)) = payload @ map pieceByte ps)"
            using "1.IH"(2) [OF False refl g1 [symmetric] ff _ _ rst g2 [symmetric]] r
            by simp
          have u: "unstuff (pending current s) = unstuff (pending current2 s2)"
            unfolding p0' p2 using r ok1 by simp
          show ?thesis unfolding eq u using ih by simp
        next
          case fill
          have eq: "scanLoop current s payload = scanLoop current1 s1 payload"
            using False g1 ff fill
            by (subst scanLoop.simps) (simp add: Let_def marker_defs)
          have ih: "(fst (scanLoop current1 s1 payload) \<longleftrightarrow>
                       unstuff (pending current1 s1) \<noteq> None) \<and>
                    (\<forall>ps. unstuff (pending current1 s1) = Some ps \<longrightarrow>
                       snd (snd (scanLoop current1 s1 payload)) = payload @ map pieceByte ps)"
            using "1.IH"(3) [OF False refl g1 [symmetric] ff _ _ _ fill] fill
            by (auto simp: marker_defs)
          have u: "unstuff (pending current s) = unstuff (pending current1 s1)"
            unfolding p0' p1 [OF ok1] using fill by simp
          show ?thesis unfolding eq u using ih by simp
        next
          case other
          have "scanLoop current s payload = (False, s1, payload)"
            using False g1 ff other by (subst scanLoop.simps) (auto simp: Let_def)
          moreover have "unstuff (pending current s) = None"
            unfolding p0' using other by (auto simp: marker_defs)
          ultimately show ?thesis by simp
        qed
      qed
    qed
  qed
qed

lemma checkTables_result:
  "checkTables is header = Within header' \<Longrightarrow> header' = header \<or> header' = invalid header"
  by (induction "is") (auto simp: Let_def split: if_splits)

lemma validateHeader_result:
  assumes "validateHeader header = Within header'"
  shows "header' = header \<or> header' = invalid header"
  using assms checkTables_result [of "[0..<unat (numComponents header)]" header header']
  by (auto simp: validateHeader_def split: if_splits)

lemma readScanData_unstuff:
  "(fst (readScanData s payload) \<longleftrightarrow> \<not> failed s \<and> unstuff (remaining s) \<noteq> None) \<and>
   (\<forall>ps. \<not> failed s \<and> unstuff (remaining s) = Some ps \<longrightarrow>
      snd (snd (readScanData s payload)) = payload @ map pieceByte ps)"
proof -
  obtain current s1 where g: "getByte s = (current, s1)" by (cases "getByte s")
  have r: "readScanData s payload = scanLoop current s1 payload"
    using g by (simp add: readScanData_def)
  have p: "pending current s1 = (if failed s then [] else remaining s)"
    using g by (rule getByte_pending_any)
  show ?thesis
    unfolding r using scanLoop_unstuff [of current s1 payload]
    unfolding p by (cases "failed s") auto
qed

lemma afterMarkers_unstuff:
  assumes "valid header" and "afterMarkers s header = Within header'" and "valid header'"
  shows "\<exists>ps. \<not> failed s \<and> unstuff (remaining s) = Some ps \<and>
              huffmanData header' = huffmanData header @ map pieceByte ps"
proof -
  obtain atEOI s2 bytes where r: "readScanData s (huffmanData header) = (atEOI, s2, bytes)"
    by (cases "readScanData s (huffmanData header)") auto
  have eoi: "atEOI"
    using assms r by (auto simp: afterMarkers_def invalid_def split: if_splits)
  then have v: "validateHeader (header\<lparr>huffmanData := bytes\<rparr>) = Within header'"
    using assms(1,2) r by (simp add: afterMarkers_def)
  have h: "huffmanData header' = bytes"
    using validateHeader_result [OF v] by (auto simp: invalid_def)
  obtain ps where ok: "\<not> failed s" and u: "unstuff (remaining s) = Some ps"
    using readScanData_unstuff [of s "huffmanData header"] r eoi by auto
  have "bytes = huffmanData header @ map pieceByte ps"
    using readScanData_unstuff [of s "huffmanData header"] r ok u by simp
  then show ?thesis using ok u h by blast
qed

text \<open>
  Claim C5. The loop that extracts the entropy-coded data is left at EOI exactly when
  the stream has not failed and the rules of the spec accept the bytes that follow the
  scan header; then the bytes appended to \<open>huffmanData\<close> are the payload of those rules:
  a literal 0xFF is appended exactly for a pair \<open>FF 00\<close>, \<open>FF D0..D7\<close> is discarded, a
  filler \<open>FF\<close> is skipped, \<open>FF D9\<close> stops and any other \<open>FF xx\<close> fails, so every 0xFF of
  the payload comes from a pair \<open>FF 00\<close>. And whenever readJPG goes on from a valid
  header after the scan header to a valid header at its end, \<open>huffmanData\<close> has grown by
  this payload.
\<close>

theorem scan_data_unstuffed:
  "(fst (readScanData s payload) \<longleftrightarrow> \<not> failed s \<and> unstuff (remaining s) \<noteq> None) \<and>
   (\<forall>ps. \<not> failed s \<and> unstuff (remaining s) = Some ps \<longrightarrow>
      snd (snd (readScanData s payload)) = payload @ map pieceByte ps \<and>
      (\<forall>p \<in> set ps. pieceByte p = 0xFF \<longrightarrow> p = Stuffed)) \<and>
   (valid header \<and> afterMarkers s header = Within header' \<and> valid header' \<longrightarrow>
      (\<exists>ps. unstuff (remaining s) = Some ps \<and>
            huffmanData header' = huffmanData header @ map pieceByte ps))"
  using readScanData_unstuff [of s payload] unstuff_literals
    afterMarkers_unstuff [of header s header']
  by blast

text \<open>
  A stream with a literal byte, a stuffed 0xFF, a restart marker, a filler before a
  stuffed 0xFF, a literal byte and EOI; and the data of the example file with a stuffed
  0xFF in its middle.
\<close>

theorem scan_data_unstuffed_witness:
  "unstuff [0x12, 0xFF, 0x00, 0xFF, 0xD3, 0xFF, 0xFF, 0x00, 0x34, 0xFF, 0xD9, 0x56]
     = Some [Literal 0x12, Stuffed, Stuffed, Literal 0x34] \<and>
   readScanData \<lparr>remaining = [0x12, 0xFF, 0x00, 0xFF, 0xD3, 0xFF, 0xFF, 0x00, 0x34, 0xFF, 0xD9, 0x56],
                 failed = False\<rparr> []
     = (True, \<lparr>remaining = [0x56], failed = False\<rparr>, [0x12, 0xFF, 0xFF, 0x34]) \<and>
   valid (exampleHeader\<lparr>huffmanData := []\<rparr>) \<and>
   afterMarkers \<lparr>remaining = [0xBA, 0xFF, 0x00, 0xEF, 0xFF, 0xD9], failed = False\<rparr>
       (exampleHeader\<lparr>huffmanData := []\<rparr>)
     = Within (exampleHeader\<lparr>huffmanData := [0xBA, 0xFF, 0xEF]\<rparr>) \<and>
   unstuff [0xBA, 0xFF, 0x00, 0xEF, 0xFF, 0xD9] = Some [Literal 0xBA, Stuffed, Literal 0xEF]"
proof -
  let ?s = "\<lparr>remaining = [0x12, 0xFF, 0x00, 0xFF, 0xD3, 0xFF, 0xFF, 0x00, 0x34, 0xFF, 0xD9, 0x56 :: byte],
              failed = False\<rparr>"
  let ?t = "\<lparr>remaining = [0xBA, 0xFF, 0x00, 0xEF, 0xFF, 0xD9 :: byte], failed = False\<rparr>"
  let ?h = "exampleHeader\<lparr>huffmanData := []\<rparr>"
  let ?h' = "exampleHeader\<lparr>huffmanData := [0xBA, 0xFF, 0xEF]\<rparr>"
  have u: "unstuff (remaining ?s) = Some [Literal 0x12, Stuffed, Stuffed, Literal 0x34]"
    by simp
  have u': "unstuff [0xBA, 0xFF, 0x00, 0xEF, 0xFF, 0xD9] = Some [Literal 0xBA, Stuffed, Literal 0xEF]"
    by simp
  have v: "valid ?h" "valid ?h'" by (simp_all add: exampleHeader_def emptyHeader_def)
  have a: "afterMarkers ?t ?h = Within ?h'" by code_simp
  have r: "readScanData ?s [] = (True, \<lparr>remaining = [0x56], failed = False\<rparr>, [0x12, 0xFF, 0xFF, 0x34])"
    by code_simp
  have "snd (snd (readScanData ?s [])) = [] @ map pieceByte [Literal 0x12, Stuffed, Stuffed, Literal 0x34]"
    using scan_data_unstuffed [of ?s "[]"] u by simp
  moreover have "\<exists>ps. unstuff (remaining ?t) = Some ps \<and>
                      huffmanData ?h' = huffmanData ?h @ map pieceByte ps"
    using scan_data_unstuffed [of ?t "[]" ?h ?h'] v a by blast
  ultimately show ?thesis using u u' v a r by simp
qed

section \<open>Restart intervals\<close>

lemma andThen_Ok: "andThen x f = Ok r \<longleftrightarrow> (\<exists>v. x = Ok v \<and> f v = Ok r)"
  by (cases x) simp_all

lemma readBit_ok: "reader_ok b \<Longrightarrow> reader_ok (snd (readBit b))"
  by (auto simp: reader_ok_def readBit_def Let_def)

lemma readBitsLoop_ok: "reader_ok b \<Longrightarrow> reader_ok (snd (readBitsLoop n bits b))"
proof (induction n arbitrary: bits b)
  case 0
  then show ?case by simp
next
  case (Suc n)
  obtain bt b' where r: "readBit b = (bt, b')" by (cases "readBit b")
  have "reader_ok b'" using readBit_ok [OF Suc.prems] r by simp
  then show ?case using Suc.IH [of b'] r by simp
qed

lemma readBits_ok: "reader_ok b \<Longrightarrow> reader_ok (snd (readBits n b))"
  by (simp add: readBits_def readBitsLoop_ok)

lemma symbolLoop_ok: "reader_ok b \<Longrightarrow> reader_ok (snd (symbolLoop codes hTable j c b))"
proof (induction codes hTable j c b rule: symbolLoop.induct)
  case (1 codes hTable j currentCode b)
  obtain bt b' where r: "readBit b = (bt, b')" by (cases "readBit b")
  have b': "reader_ok b'" using readBit_ok [OF "1.prems"] r by simp
  show ?case
  proof (cases "j < 16")
    case False
    then show ?thesis using "1.prems" by (subst symbolLoop.simps) simp
  next
    case True
    show ?thesis
    proof (cases "find (\<lambda>k. currentCode = codes ! k)
                [unat (offsets hTable ! j) ..< unat (offsets hTable ! (j + 1))]")
      case (Some k)
      then show ?thesis using True "1.prems" by (subst symbolLoop.simps) simp
    next
      case None
      have "reader_ok (snd (symbolLoop codes hTable (j + 1) (push_bit 1 currentCode OR bt) b'))"
        using "1.IH" [OF True None r [symmetric] b'] .
      then show ?thesis using True None r by (subst symbolLoop.simps) simp
    qed
  qed
qed

lemma getNextSymbol_ok:
  assumes "reader_ok b"
  shows "reader_ok (snd (getNextSymbol b codes hTable))"
proof -
  obtain bt b' where r: "readBit b = (bt, b')" by (cases "readBit b")
  have "reader_ok b'" using readBit_ok [OF assms] r by simp
  then show ?thesis using r by (simp add: getNextSymbol_def symbolLoop_ok)
qed

lemma acStep_ok:
  assumes "reader_ok b"
  shows "acStep acCodes acTable i b component = Next i' b' component' \<Longrightarrow> reader_ok b'"
    and "acStep acCodes acTable i b component = Return (Ok (b', component')) \<Longrightarrow> reader_ok b'"
proof -
  obtain symbol b1 where s: "getNextSymbol b acCodes acTable = (symbol, b1)"
    by (cases "getNextSymbol b acCodes acTable")
  have b1: "reader_ok b1" using getNextSymbol_ok [OF assms, of acCodes acTable] s by simp
  have b2: "\<And>n c b''. readBits n b1 = (c, b'') \<Longrightarrow> reader_ok b''"
    using readBits_ok [OF b1] by (metis snd_conv)
  show "acStep acCodes acTable i b component = Next i' b' component' \<Longrightarrow> reader_ok b'"
    using s b1 b2
    by (auto simp: acStep_def Let_def split: if_splits prod.splits)
  show "acStep acCodes acTable i b component = Return (Ok (b', component')) \<Longrightarrow> reader_ok b'"
    using s b1
    by (auto simp: acStep_def Let_def split: if_splits prod.splits)
qed

lemma acLoop_ok:
  "reader_ok b \<Longrightarrow> acLoop acCodes acTable i b component = Ok (b', component') \<Longrightarrow> reader_ok b'"
proof (induction acCodes acTable i b component rule: acLoop.induct)
  case (1 acCodes acTable i b component)
  show ?case
  proof (cases "i < 64")
    case False
    then show ?thesis using "1.prems" by (subst (asm) acLoop.simps) simp
  next
    case True
    show ?thesis
    proof (cases "acStep acCodes acTable i b component")
      case (Return r)
      then have "r = Ok (b', component')"
        using True "1.prems"(2) by (subst (asm) acLoop.simps) simp
      then show ?thesis using Return acStep_ok(2) [OF "1.prems"(1)] by blast
    next
      case (Next i1 b1 c1)
      have b1: "reader_ok b1" using acStep_ok(1) [OF "1.prems"(1) Next] .
      have "acLoop acCodes acTable (i1 + 1) b1 c1 = Ok (b', component')"
        using True Next "1.prems"(2) by (subst (asm) acLoop.simps) simp
      then show ?thesis using "1.IH" [OF True Next b1] by simp
    qed
  qed
qed

lemma decodeMCUComponent_ok:
  assumes "reader_ok b"
    and "decodeMCUComponent b component previousDC dcCodes dcTable acCodes acTable = Ok (b', component')"
  shows "reader_ok b'"
proof -
  obtain len b1 where s: "getNextSymbol b dcCodes dcTable = (len, b1)"
    by (cases "getNextSymbol b dcCodes dcTable")
  have b1: "reader_ok b1" using getNextSymbol_ok [OF assms(1), of dcCodes dcTable] s by simp
  obtain coeff b2 where r: "readBits (unat len) b1 = (coeff, b2)"
    by (cases "readBits (unat len) b1")
  have b2: "reader_ok b2" using readBits_ok [OF b1, of "unat len"] r by simp
  show ?thesis
    using assms(2) s r acLoop_ok [OF b2]
    by (auto simp: decodeMCUComponent_def Let_def split: if_splits option.splits)
qed

lemma decodeY_facts:
  assumes "decodeY header dcCodes acCodes i st = Ok st'" and "reader_ok (reader st)"
    and "i < length (mcus st)"
  shows "reader_ok (reader st') \<and> numProcessed st' = numProcessed st \<and>
         length (mcus st') = length (mcus st) \<and>
         previousYDC st' = y (mcus st' ! i) ! 0 \<and>
         previousCbDC st' = previousCbDC st \<and> previousCrDC st' = previousCrDC st"
  using assms decodeMCUComponent_ok [OF assms(2)]
  by (auto simp: decodeY_def Let_def andThen_Ok)

lemma decodeCb_facts:
  assumes "decodeCb header dcCodes acCodes i st = Ok st'" and "reader_ok (reader st)"
    and "i < length (mcus st)"
  shows "reader_ok (reader st') \<and> numProcessed st' = numProcessed st \<and>
         length (mcus st') = length (mcus st) \<and>
         previousCbDC st' = cb (mcus st' ! i) ! 0 \<and> y (mcus st' ! i) = y (mcus st ! i) \<and>
         previousYDC st' = previousYDC st \<and> previousCrDC st' = previousCrDC st"
  using assms decodeMCUComponent_ok [OF assms(2)]
  by (auto simp: decodeCb_def Let_def andThen_Ok)

lemma decodeCr_facts:
  assumes "decodeCr header dcCodes acCodes i st = Ok st'" and "reader_ok (reader st)"
    and "i < length (mcus st)"
  shows "reader_ok (reader st') \<and> numProcessed st' = numProcessed st \<and>
         length (mcus st') = length (mcus st) \<and>
         previousCrDC st' = cr (mcus st' ! i) ! 0 \<and> y (mcus st' ! i) = y (mcus st ! i) \<and>
         cb (mcus st' ! i) = cb (mcus st ! i) \<and>
         previousYDC st' = previousYDC st \<and> previousCbDC st' = previousCbDC st"
  using assms decodeMCUComponent_ok [OF assms(2)]
  by (auto simp: decodeCr_def Let_def andThen_Ok)

text \<open>The blocks of one MCU.\<close>

lemma decodeBlocks_facts:
  assumes blocks: "decodeBlocks header dcCodes acCodes i st = Ok st'"
    and ok: "reader_ok (reader st)"
    and i: "i < length (mcus st)"
  shows "reader_ok (reader st') \<and> numProcessed st' = numProcessed st \<and>
         length (mcus st') = length (mcus st) \<and>
         previousYDC st' = y (mcus st' ! i) ! 0 \<and>
         (if numComponents header = 3
          then previousCbDC st' = cb (mcus st' ! i) ! 0 \<and>
               previousCrDC st' = cr (mcus st' ! i) ! 0
          else previousCbDC st' = previousCbDC st \<and> previousCrDC st' = previousCrDC st)"
proof -
  obtain st1 where y1: "decodeY header dcCodes acCodes i st = Ok st1"
    using blocks by (auto simp: decodeBlocks_def andThen_Ok)
  note f1 = decodeY_facts [OF y1 ok i]
  show ?thesis
  proof (cases "numComponents header = 3")
    case False
    then have "st' = st1"
      using blocks y1 by (simp add: decodeBlocks_def)
    then show ?thesis
      using False f1 by simp
  next
    case True
    obtain st2 where cb2: "decodeCb header dcCodes acCodes i st1 = Ok st2"
      and cr3: "decodeCr header dcCodes acCodes i st2 = Ok st'"
      using blocks y1 True by (auto simp: decodeBlocks_def andThen_Ok)
    have i1: "i < length (mcus st1)" using f1 i by simp
    note f2 = decodeCb_facts [OF cb2 _ i1]
    have ok1: "reader_ok (reader st1)" using f1 by simp
    have i2: "i < length (mcus st2)" using f2 [OF ok1] i1 by simp
    have ok2: "reader_ok (reader st2)" using f2 [OF ok1] by simp
    note f3 = decodeCr_facts [OF cr3 ok2 i2]
    show ?thesis
      using True f1 f2 [OF ok1] f3 by simp
  qed
qed

text \<open>
  What \<open>align\<close> does to a bit reader that the decoder has reached: nothing at the start
  of a byte, and otherwise the step to the start of the next byte.
\<close>

lemma align_next_byte:
  assumes "reader_ok b"
  shows "data (align b) = data b \<and> nextBit (align b) = 0 \<and>
         nextByte (align b) = (if nextBit b = 0 then nextByte b else nextByte b + 1) \<and>
         reader_ok (align b)"
  using assms by (auto simp: reader_ok_def align_def)

lemma restartCheck_facts:
  assumes "reader_ok (reader st)"
  shows "reader_ok (reader (restartCheck header st)) \<and>
         numProcessed (restartCheck header st) = numProcessed st + 1 \<and>
         mcus (restartCheck header st) = mcus st \<and>
         (if atRestart header (numProcessed st + 1)
          then previousYDC (restartCheck header st) = 0 \<and>
               previousCbDC (restartCheck header st) = 0 \<and>
               previousCrDC (restartCheck header st) = 0 \<and>
               data (reader (restartCheck header st)) = data (reader st) \<and>
               nextBit (reader (restartCheck header st)) = 0 \<and>
               nextByte (reader (restartCheck header st)) =
                 (if nextBit (reader st) = 0 then nextByte (reader st)
                  else nextByte (reader st) + 1)
          else previousYDC (restartCheck header st) = previousYDC st \<and>
               previousCbDC (restartCheck header st) = previousCbDC st \<and>
               previousCrDC (restartCheck header st) = previousCrDC st \<and>
               reader (restartCheck header st) = reader st)"
  using align_next_byte [OF assms] assms
  by (simp add: restartCheck_def atRestart_def Let_def)

lemma mcuStep_facts:
  assumes step: "mcuStep header dcCodes acCodes i st = Ok st'"
    and ok: "reader_ok (reader st)"
    and i: "i < length (mcus st)"
  shows "reader_ok (reader st') \<and> numProcessed st' = numProcessed st + 1 \<and>
         length (mcus st') = length (mcus st)"
proof -
  obtain st1 where blocks: "decodeBlocks header dcCodes acCodes i st = Ok st1"
    and fin: "st' = restartCheck header st1"
    using step by (auto simp: mcuStep_def andThen_Ok)
  note f = decodeBlocks_facts [OF blocks ok i]
  have ok1: "reader_ok (reader st1)" using f by simp
  show ?thesis
    unfolding fin using f restartCheck_facts [OF ok1, of header] by simp
qed

lemma initialState_ok:
  "reader_ok (reader (initialState header allocated)) \<and>
   numProcessed (initialState header allocated) = 0 \<and>
   mcus (initialState header allocated) = allocated"
  by (simp add: initialState_def reader_ok_def)

lemma decodeMCUs_invariant:
  assumes "decodeMCUs header dcCodes acCodes k (initialState header allocated) = Ok st"
    and "k \<le> length allocated"
  shows "reader_ok (reader st) \<and> numProcessed st = k \<and> length (mcus st) = length allocated"
  using assms
proof (induction k arbitrary: st)
  case 0
  then show ?case using initialState_ok [of header allocated] by simp
next
  case (Suc k)
  obtain st0 where run: "decodeMCUs header dcCodes acCodes k (initialState header allocated) = Ok st0"
    and step: "mcuStep header dcCodes acCodes k st0 = Ok st"
    using Suc.prems(1) by (auto simp: andThen_Ok)
  have inv: "reader_ok (reader st0) \<and> numProcessed st0 = k \<and> length (mcus st0) = length allocated"
    using Suc.IH [OF run] Suc.prems(2) by simp
  then have "k < length (mcus st0)" using Suc.prems(2) by simp
  then show ?case using mcuStep_facts [OF step] inv by simp
qed

text \<open>
  The loop writes the entry \<open>i\<close> of the array of the MCUs in its pass \<open>i\<close> alone:
  before that pass the entry is as the allocation has left it.
\<close>

lemma decodeY_others:
  "decodeY header dcCodes acCodes i st = Ok st' \<Longrightarrow> j \<noteq> i \<Longrightarrow> mcus st' ! j = mcus st ! j"
  by (auto simp: decodeY_def Let_def andThen_Ok)

lemma decodeCb_others:
  "decodeCb header dcCodes acCodes i st = Ok st' \<Longrightarrow> j \<noteq> i \<Longrightarrow> mcus st' ! j = mcus st ! j"
  by (auto simp: decodeCb_def Let_def andThen_Ok)

lemma decodeCr_others:
  "decodeCr header dcCodes acCodes i st = Ok st' \<Longrightarrow> j \<noteq> i \<Longrightarrow> mcus st' ! j = mcus st ! j"
  by (auto simp: decodeCr_def Let_def andThen_Ok)

lemma mcuStep_others:
  assumes "mcuStep header dcCodes acCodes i st = Ok st'" and "j \<noteq> i"
  shows "mcus st' ! j = mcus st ! j"
proof -
  obtain st1 where blocks: "decodeBlocks header dcCodes acCodes i st = Ok st1"
    and fin: "st' = restartCheck header st1"
    using assms(1) by (auto simp: mcuStep_def andThen_Ok)
  have "mcus st1 ! j = mcus st ! j"
    using blocks assms(2) decodeY_others decodeCb_others decodeCr_others
    by (auto simp: decodeBlocks_def andThen_Ok split: if_splits)
  then show ?thesis unfolding fin by (simp add: restartCheck_def Let_def)
qed

lemma decodeMCUs_fresh:
  assumes "decodeMCUs header dcCodes acCodes k (initialState header allocated) = Ok st"
    and "k \<le> j"
  shows "mcus st ! j = allocated ! j"
  using assms
proof (induction k arbitrary: st)
  case 0
  then show ?case using initialState_ok [of header allocated] by auto
next
  case (Suc k)
  obtain st0 where run: "decodeMCUs header dcCodes acCodes k (initialState header allocated) = Ok st0"
    and step: "mcuStep header dcCodes acCodes k st0 = Ok st"
    using Suc.prems(1) by (auto simp: andThen_Ok)
  have "mcus st ! j = mcus st0 ! j" using mcuStep_others [OF step, of j] Suc.prems(2) by simp
  then show ?case using Suc.IH [OF run] Suc.prems(2) by simp
qed

text \<open>
  Claim C6. Take the state \<open>st\<close> of decodeHuffmanData after the first \<open>k\<close> MCUs,
  \<open>k > 0\<close>: the loop has reached the state \<open>st0\<close> after \<open>k - 1\<close> MCUs, has decoded the
  blocks of the MCU \<open>k\<close>, which gives \<open>st1\<close>, and has counted it.
  \<^item> When the restart interval is not 0 and divides \<open>k\<close>, the three DC predictors of
    \<open>st\<close> are 0 and the bit reader is the one of \<open>st1\<close> after \<open>align()\<close>: on the same data,
    at the bit 0, and at the same byte when \<open>st1\<close> stood at the bit 0 already, at the
    next byte otherwise.
  \<^item> Otherwise, and so for every \<open>k\<close> when the restart interval is 0, nothing is reset:
    the bit reader is the one of \<open>st1\<close>, and each predictor is the DC coefficient of the
    block of its component decoded last (a component that has no block keeps its
    predictor).
\<close>

theorem restart_interval_resets:
  assumes run: "decodeMCUs header dcCodes acCodes k (initialState header allocated) = Ok st"
    and k: "0 < k" "k \<le> length allocated"
  shows "\<exists>st0 st1.
           decodeMCUs header dcCodes acCodes (k - 1) (initialState header allocated) = Ok st0 \<and>
           decodeBlocks header dcCodes acCodes (k - 1) st0 = Ok st1 \<and>
           numProcessed st = k \<and> mcus st = mcus st1 \<and>
           (restartInterval header \<noteq> 0 \<and> k mod unat (restartInterval header) = 0 \<longrightarrow>
              previousYDC st = 0 \<and> previousCbDC st = 0 \<and> previousCrDC st = 0 \<and>
              data (reader st) = data (reader st1) \<and>
              nextBit (reader st) = 0 \<and>
              nextByte (reader st) =
                (if nextBit (reader st1) = 0 then nextByte (reader st1)
                 else nextByte (reader st1) + 1)) \<and>
           (restartInterval header = 0 \<or> k mod unat (restartInterval header) \<noteq> 0 \<longrightarrow>
              reader st = reader st1 \<and>
              previousYDC st = y (mcus st ! (k - 1)) ! 0 \<and>
              (if numComponents header = 3
               then previousCbDC st = cb (mcus st ! (k - 1)) ! 0 \<and>
                    previousCrDC st = cr (mcus st ! (k - 1)) ! 0
               else previousCbDC st = previousCbDC st0 \<and> previousCrDC st = previousCrDC st0))"
proof -
  obtain k' where k': "k = Suc k'" using k(1) by (cases k) simp_all
  obtain st0 where run0: "decodeMCUs header dcCodes acCodes k' (initialState header allocated) = Ok st0"
    and step: "mcuStep header dcCodes acCodes k' st0 = Ok st"
    using run unfolding k' by (auto simp: andThen_Ok)
  obtain st1 where blocks: "decodeBlocks header dcCodes acCodes k' st0 = Ok st1"
    and fin: "st = restartCheck header st1"
    using step by (auto simp: mcuStep_def andThen_Ok)
  have inv: "reader_ok (reader st0) \<and> numProcessed st0 = k' \<and> length (mcus st0) = length allocated"
    using decodeMCUs_invariant [OF run0] k(2) k' by simp
  then have i: "k' < length (mcus st0)" using k(2) k' by simp
  have ok: "reader_ok (reader st0)" using inv by simp
  note f = decodeBlocks_facts [OF blocks ok i]
  have ok1: "reader_ok (reader st1)" using f by simp
  have n1: "numProcessed st1 + 1 = k" using f inv k' by simp
  note r = restartCheck_facts [OF ok1, of header, folded fin, unfolded n1]
  have count: "numProcessed st = k \<and> mcus st = mcus st1" using r by simp
  have at: "restartInterval header \<noteq> 0 \<and> k mod unat (restartInterval header) = 0 \<longrightarrow>
              previousYDC st = 0 \<and> previousCbDC st = 0 \<and> previousCrDC st = 0 \<and>
              data (reader st) = data (reader st1) \<and>
              nextBit (reader st) = 0 \<and>
              nextByte (reader st) =
                (if nextBit (reader st1) = 0 then nextByte (reader st1)
                 else nextByte (reader st1) + 1)"
    using r by (simp add: atRestart_def)
  have between: "restartInterval header = 0 \<or> k mod unat (restartInterval header) \<noteq> 0 \<longrightarrow>
              reader st = reader st1 \<and>
              previousYDC st = y (mcus st ! (k - 1)) ! 0 \<and>
              (if numComponents header = 3
               then previousCbDC st = cb (mcus st ! (k - 1)) ! 0 \<and>
                    previousCrDC st = cr (mcus st ! (k - 1)) ! 0
               else previousCbDC st = previousCbDC st0 \<and> previousCrDC st = previousCrDC st0)"
    using r f count k' by (auto simp: atRestart_def)
  show ?thesis
    using run0 blocks count at between unfolding k' by (intro exI [of _ st0] exI [of _ st1]) simp
qed

lemma example_readJPG: "readJPG (Some exampleFile) True = Within (Some exampleHeader)"
  by code_simp

text \<open>
  Three MCUs and a restart interval of 1. The first MCU takes the whole byte 0xB2, so
  the bit reader stands at the start of the byte 1 and \<open>align()\<close> leaves it there. The
  second takes six bits of the byte 0xBB, and \<open>align()\<close> steps from the bit 6 of the byte
  1 to the start of the byte 2, with one byte of the data still to read. Each block has
  the DC coefficient 3. With the restart interval 0 the bit reader stays at the bit 6
  and the second DC coefficient is 3 + 3.
\<close>

theorem restart_interval_resets_witness:
  "decodeMCUs restartHeader (allCodes (huffmanDCTables restartHeader))
       (allCodes (huffmanACTables restartHeader)) 1
       (initialState restartHeader [zeroMCU, zeroMCU, zeroMCU])
     = Ok \<lparr>reader = \<lparr>nextByte = 1, nextBit = 0, data = [0xB2, 0xBB, 0xBB]\<rparr>,
           previousYDC = 0, previousCbDC = 0, previousCrDC = 0, numProcessed = 1,
           mcus = [zeroMCU\<lparr>y := (replicate 64 0)[0 := 3]\<rparr>, zeroMCU, zeroMCU]\<rparr> \<and>
   decodeBlocks restartHeader (allCodes (huffmanDCTables restartHeader))
       (allCodes (huffmanACTables restartHeader)) 1
       \<lparr>reader = \<lparr>nextByte = 1, nextBit = 0, data = [0xB2, 0xBB, 0xBB]\<rparr>,
        previousYDC = 0, previousCbDC = 0, previousCrDC = 0, numProcessed = 1,
        mcus = [zeroMCU\<lparr>y := (replicate 64 0)[0 := 3]\<rparr>, zeroMCU, zeroMCU]\<rparr>
     = Ok \<lparr>reader = \<lparr>nextByte = 1, nextBit = 6, data = [0xB2, 0xBB, 0xBB]\<rparr>,
           previousYDC = 3, previousCbDC = 0, previousCrDC = 0, numProcessed = 1,
           mcus = [zeroMCU\<lparr>y := (replicate 64 0)[0 := 3]\<rparr>,
                   zeroMCU\<lparr>y := (replicate 64 0)[0 := 3]\<rparr>, zeroMCU]\<rparr> \<and>
   decodeMCUs restartHeader (allCodes (huffmanDCTables restartHeader))
       (allCodes (huffmanACTables restartHeader)) 2
       (initialState restartHeader [zeroMCU, zeroMCU, zeroMCU])
     = Ok \<lparr>reader = \<lparr>nextByte = 2, nextBit = 0, data = [0xB2, 0xBB, 0xBB]\<rparr>,
           previousYDC = 0, previousCbDC = 0, previousCrDC = 0, numProcessed = 2,
           mcus = [zeroMCU\<lparr>y := (replicate 64 0)[0 := 3]\<rparr>,
                   zeroMCU\<lparr>y := (replicate 64 0)[0 := 3]\<rparr>, zeroMCU]\<rparr> \<and>
   restartInterval restartHeader = 1 \<and>
   decodeMCUs (restartHeader\<lparr>restartInterval := 0\<rparr>) (allCodes (huffmanDCTables restartHeader))
       (allCodes (huffmanACTables restartHeader)) 2
       (initialState (restartHeader\<lparr>restartInterval := 0\<rparr>) [zeroMCU, zeroMCU, zeroMCU])
     = Ok \<lparr>reader = \<lparr>nextByte = 1, nextBit = 6, data = [0xB2, 0xBB, 0xBB]\<rparr>,
           previousYDC = 6, previousCbDC = 0, previousCrDC = 0, numProcessed = 2,
           mcus = [zeroMCU\<lparr>y := (replicate 64 0)[0 := 3]\<rparr>,
                   zeroMCU\<lparr>y := (replicate 64 0)[0 := 6]\<rparr>, zeroMCU]\<rparr>"
proof -
  let ?dc = "allCodes (huffmanDCTables restartHeader)"
  let ?ac = "allCodes (huffmanACTables restartHeader)"
  let ?h0 = "restartHeader\<lparr>restartInterval := 0\<rparr>"
  let ?fresh = "[zeroMCU, zeroMCU, zeroMCU]"
  let ?d = "[0xB2, 0xBB, 0xBB] :: byte list"
  let ?b3 = "zeroMCU\<lparr>y := (replicate 64 0)[0 := 3]\<rparr>"
  let ?b6 = "zeroMCU\<lparr>y := (replicate 64 0)[0 := 6]\<rparr>"
  let ?s1 = "\<lparr>reader = \<lparr>nextByte = 1, nextBit = 0, data = ?d\<rparr>,
           previousYDC = 0, previousCbDC = 0, previousCrDC = 0, numProcessed = 1,
           mcus = [?b3, zeroMCU, zeroMCU]\<rparr>"
  let ?s1' = "\<lparr>reader = \<lparr>nextByte = 1, nextBit = 6, data = ?d\<rparr>,
           previousYDC = 3, previousCbDC = 0, previousCrDC = 0, numProcessed = 1,
           mcus = [?b3, ?b3, zeroMCU]\<rparr>"
  let ?s2 = "\<lparr>reader = \<lparr>nextByte = 2, nextBit = 0, data = ?d\<rparr>,
           previousYDC = 0, previousCbDC = 0, previousCrDC = 0, numProcessed = 2,
           mcus = [?b3, ?b3, zeroMCU]\<rparr>"
  let ?t2 = "\<lparr>reader = \<lparr>nextByte = 1, nextBit = 6, data = ?d\<rparr>,
           previousYDC = 6, previousCbDC = 0, previousCrDC = 0, numProcessed = 2,
           mcus = [?b3, ?b6, zeroMCU]\<rparr>"
  have run1: "decodeMCUs restartHeader ?dc ?ac 1 (initialState restartHeader ?fresh) = Ok ?s1"
    by code_simp
  have blocks: "decodeBlocks restartHeader ?dc ?ac 1 ?s1 = Ok ?s1'"
    by code_simp
  have run2: "decodeMCUs restartHeader ?dc ?ac 2 (initialState restartHeader ?fresh) = Ok ?s2"
    by code_simp
  have run0: "decodeMCUs ?h0 ?dc ?ac 2 (initialState ?h0 ?fresh) = Ok ?t2"
    by code_simp
  have k: "(0::nat) < 2" "2 \<le> length ?fresh" by simp_all
  have ri: "restartInterval restartHeader = 1" by (simp add: restartHeader_def)
  obtain st0 st1 where
    a: "decodeMCUs restartHeader ?dc ?ac (2 - 1) (initialState restartHeader ?fresh) = Ok st0"
    and b: "decodeBlocks restartHeader ?dc ?ac (2 - 1) st0 = Ok st1"
    and c: "restartInterval restartHeader \<noteq> 0 \<and> 2 mod unat (restartInterval restartHeader) = 0 \<longrightarrow>
              previousYDC ?s2 = 0 \<and>
              nextByte (reader ?s2) =
                (if nextBit (reader st1) = 0 then nextByte (reader st1)
                 else nextByte (reader st1) + 1)"
    using restart_interval_resets [OF run2 k] by blast
  have "st0 = ?s1" using a run1 by simp
  then have "st1 = ?s1'" using b blocks by simp
  then have "nextByte (reader ?s2) = 1 + 1" using c ri by simp
  moreover have "previousYDC ?t2 = y (mcus ?t2 ! (2 - 1)) ! 0"
    using restart_interval_resets [OF run0 k] by simp
  ultimately show ?thesis using run1 blocks run2 run0 ri by simp
qed

section \<open>The frame header and the scan header\<close>

lemma readStartOfFrame_second:
  "numComponents header \<noteq> 0 \<Longrightarrow> readStartOfFrame s header = (s, invalid header)"
  by (simp add: readStartOfFrame_def)

lemma checkTables_invalid:
  assumes "\<not> valid header" and "tableIDsInRange header" and "\<forall>i \<in> set is. i < 3"
  shows "checkTables is header = Within header"
  using assms(3)
proof (induction "is")
  case Nil
  then show ?case by simp
next
  case (Cons i rest)
  then have i: "i < length (colorComponents header)"
    using assms(2) by (simp add: tableIDsInRange_def)
  have ids: "\<not> 3 < quantizationTableID (colorComponents header ! i)"
    "\<not> 3 < huffmanDCTableID (colorComponents header ! i)"
    "\<not> 3 < huffmanACTableID (colorComponents header ! i)"
    using assms(2) i by (simp_all add: tableIDsInRange_def list_all_length not_less)
  have inv: "invalid header = header" using assms(1) by (simp add: invalid_def)
  show ?case using Cons ids inv by (simp add: Let_def)
qed

lemma validateHeader_invalid:
  assumes "\<not> valid header" and "tableIDsInRange header"
  shows "validateHeader header = Within header"
proof -
  have inv: "invalid header = header" using assms(1) by (simp add: invalid_def)
  have "numComponents header = 1 \<or> numComponents header = 3 \<Longrightarrow>
        \<forall>i \<in> set [0..<unat (numComponents header)]. i < 3"
    by auto
  then show ?thesis
    using inv checkTables_invalid [OF assms, of "[0..<unat (numComponents header)]"]
    by (auto simp: validateHeader_def)
qed

text \<open>
  Claim C10. When the loop over the markers meets SOF0 and a frame has been parsed
  before (\<open>numComponents\<close> is not 0), in a header whose components name tables from 0
  to 3, the loop ends with a header that is not valid, the rest of readJPG returns this
  header, and its height, width, number of components and components are those of the
  first frame.
\<close>

theorem second_frame_rejected:
  assumes "valid header" and "numComponents header \<noteq> 0" and "\<not> failed s"
    and "tableIDsInRange header"
  shows "\<exists>s'. readMarkers 0xFF SOF0 s header
                 = Within (LoopEnd s' (invalid (header\<lparr>frameType := SOF0\<rparr>))) \<and>
              afterMarkers s' (invalid (header\<lparr>frameType := SOF0\<rparr>))
                 = Within (invalid (header\<lparr>frameType := SOF0\<rparr>)) \<and>
              valid (invalid (header\<lparr>frameType := SOF0\<rparr>)) = False \<and>
              height (invalid (header\<lparr>frameType := SOF0\<rparr>)) = height header \<and>
              width (invalid (header\<lparr>frameType := SOF0\<rparr>)) = width header \<and>
              numComponents (invalid (header\<lparr>frameType := SOF0\<rparr>)) = numComponents header \<and>
              colorComponents (invalid (header\<lparr>frameType := SOF0\<rparr>)) = colorComponents header"
proof -
  let ?h = "invalid (header\<lparr>frameType := SOF0\<rparr>)"
  obtain lastB' current' s' where a: "advance s = (lastB', current', s')"
    by (cases "advance s") auto
  have f: "readStartOfFrame s (header\<lparr>frameType := SOF0\<rparr>) = (s, ?h)"
    using assms(2) by (simp add: readStartOfFrame_second)
  have nv: "\<not> valid ?h" by (simp add: invalid_def)
  have "readMarkers 0xFF SOF0 s header = readMarkers lastB' current' s' ?h"
    using assms(1,3) f a by (subst readMarkers.simps) simp
  also have "\<dots> = Within (LoopEnd s' ?h)"
    using nv by (subst readMarkers.simps) simp
  finally have loop: "readMarkers 0xFF SOF0 s header = Within (LoopEnd s' ?h)" .
  have ids: "tableIDsInRange ?h" using assms(4) by (simp add: tableIDsInRange_def invalid_def)
  have after: "afterMarkers s' ?h = Within ?h"
    using nv validateHeader_invalid [OF nv ids] by (simp add: afterMarkers_def)
  show ?thesis using loop after by (auto simp: invalid_def)
qed

theorem second_frame_rejected_witness:
  "valid frameHeader \<and> numComponents frameHeader = 1 \<and> tableIDsInRange frameHeader \<and>
   readMarkers 0xFF SOF0
       \<lparr>remaining = [0x00, 0x0B, 0x08, 0x00, 0x04, 0x00, 0x04, 0x01, 0x02, 0x11, 0x00, 0xFF, 0xD9],
        failed = False\<rparr> frameHeader
     = Within (LoopEnd
         \<lparr>remaining = [0x08, 0x00, 0x04, 0x00, 0x04, 0x01, 0x02, 0x11, 0x00, 0xFF, 0xD9],
          failed = False\<rparr> (invalid frameHeader)) \<and>
   readJPG (Some twoFramesFile) True = Within (Some (invalid frameHeader)) \<and>
   height (invalid frameHeader) = 8 \<and> width (invalid frameHeader) = 16"
proof -
  let ?s = "\<lparr>remaining = [0x00, 0x0B, 0x08, 0x00, 0x04, 0x00, 0x04, 0x01, 0x02, 0x11, 0x00, 0xFF, 0xD9 :: byte],
        failed = False\<rparr>"
  have v: "valid frameHeader" by (simp add: frameHeader_def emptyHeader_def)
  have n: "numComponents frameHeader \<noteq> 0" by (simp add: frameHeader_def)
  have s: "\<not> failed ?s" by simp
  have t: "tableIDsInRange frameHeader" by code_simp
  have same: "frameHeader\<lparr>frameType := SOF0\<rparr> = frameHeader" by (simp add: frameHeader_def)
  have loop: "readMarkers 0xFF SOF0 ?s frameHeader
     = Within (LoopEnd
         \<lparr>remaining = [0x08, 0x00, 0x04, 0x00, 0x04, 0x01, 0x02, 0x11, 0x00, 0xFF, 0xD9],
          failed = False\<rparr> (invalid frameHeader))"
    by code_simp
  have whole: "readJPG (Some twoFramesFile) True = Within (Some (invalid frameHeader))"
    by code_simp
  have "height (invalid frameHeader) = height frameHeader \<and>
        width (invalid frameHeader) = width frameHeader"
    using second_frame_rejected [OF v n s t] unfolding same by blast
  then have "height (invalid frameHeader) = 8 \<and> width (invalid frameHeader) = 16"
    by (simp add: frameHeader_def)
  then show ?thesis using v t loop whole by (simp add: frameHeader_def)
qed

text \<open>
  Claim C9 fails on the code. In a file whose frame has the component ID 1
  (\<open>zeroBased\<close> is false), a scan with the component ID 0 passes the test
  \<open>componentID > header->numComponents\<close>, and readStartOfScan reads
  \<open>colorComponents[-1]\<close>.
\<close>

theorem scan_component_zero_out_of_bounds:
  "zeroBased frameHeader = False \<and>
   readStartOfScan
       \<lparr>remaining = [0x00, 0x08, 0x01, 0x00, 0x00, 0x00, 0x3F, 0x00, 0xFF, 0xD9], failed = False\<rparr>
       frameHeader = OutOfBounds (- 1) \<and>
   readJPG (Some scanIDZeroFile) True = OutOfBounds (- 1)"
  by code_simp

text \<open>So readJPG returns no header for this file: the index is negative.\<close>

theorem scan_component_zero_out_of_bounds_witness:
  "readJPG (Some scanIDZeroFile) True \<noteq> Within None \<and>
   (\<exists>i. readJPG (Some scanIDZeroFile) True = OutOfBounds i \<and> i < 0)"
  using scan_component_zero_out_of_bounds by simp

section \<open>The exit code\<close>

text \<open>
  The example file runs through: its two blocks are decoded, and with an output file
  that opens \<open>main\<close> returns 0 and leaves the 26 bytes of the two headers and 8 rows of
  16 pixels.
\<close>

lemma example_decode:
  "decodeHuffmanData exampleHeader (Some (\<lambda>i. zeroMCU)) = Ok exampleBlocks"
  by code_simp

lemma example_main:
  "(case main 2 (Some exampleFile) True (Some (\<lambda>i. zeroMCU)) (\<lambda>header mcus'. mcus') True of
      Ok (code, Some written) \<Rightarrow> code = 0 \<and> length written = 26 + 8 * (16 * 3)
    | _ \<Rightarrow> False)"
  by code_simp

text \<open>Whether the output file opens never changes the exit code.\<close>

lemma exit_code_ignores_output:
  "exitCode (main argc file headerAllocated fresh stages outputOpens)
     = exitCode (main argc file headerAllocated fresh stages True)"
  by (simp add: main_def exitCode_def split: access.splits option.splits outcome.splits)

text \<open>
  Claim C2 fails on the code. With a valid file and an output file that cannot be
  opened, writeBMP writes nothing and \<open>main\<close> returns 0; an input file that cannot be
  opened gives 1.
\<close>

theorem output_failure_exit_code:
  "main 2 (Some exampleFile) True (Some (\<lambda>i. zeroMCU)) stages False = Ok (0, None) \<and>
   main 2 None True (Some (\<lambda>i. zeroMCU)) stages True = Ok (1, None)"
  by code_simp

end
